theory Spec2Isabelle
  imports Complex_Main
begin

section \<open>Values of the program\<close>

subsection \<open>Python floats\<close>

text \<open>
  Costs are Python floats. A float is a finite number, one of the two infinities, or
  not-a-number. Finite values are kept as exact rationals: the rounding of a double
  addition is not modelled, and negative zero is the same value as zero (in Python
  \<^verbatim>\<open>-0.0 == 0.0\<close> and both are falsy).
\<close>

datatype pyfloat = Fin rat | PInf | NInf | NaN

text \<open>\<^verbatim>\<open>a + b\<close> on floats.\<close>

fun float_add :: "pyfloat \<Rightarrow> pyfloat \<Rightarrow> pyfloat" where
  "float_add (Fin a) (Fin b) = Fin (a + b)"
| "float_add NaN _ = NaN"
| "float_add _ NaN = NaN"
| "float_add PInf NInf = NaN"
| "float_add NInf PInf = NaN"
| "float_add PInf _ = PInf"
| "float_add _ PInf = PInf"
| "float_add NInf _ = NInf"
| "float_add _ NInf = NInf"

text \<open>\<^verbatim>\<open>a < b\<close> on floats: every comparison with not-a-number is false.\<close>

fun float_lt :: "pyfloat \<Rightarrow> pyfloat \<Rightarrow> bool" where
  "float_lt (Fin a) (Fin b) = (a < b)"
| "float_lt NaN _ = False"
| "float_lt _ NaN = False"
| "float_lt _ NInf = False"
| "float_lt NInf _ = True"
| "float_lt PInf _ = False"
| "float_lt _ PInf = True"

text \<open>\<^verbatim>\<open>not x\<close> on a float: true exactly for zero.\<close>

definition float_not :: "pyfloat \<Rightarrow> bool" where
  "float_not x = (x = Fin 0)"

subsection \<open>Exceptions\<close>

text \<open>
  The source defines no exception class. A missing dictionary key raises the built-in
  \<^verbatim>\<open>KeyError\<close> (with the key); a failed tuple unpacking, a failed
  \<^verbatim>\<open>float(...)\<close> and the explicit \<^verbatim>\<open>raise\<close> of
  \<^verbatim>\<open>_hop_from\<close> raise the built-in \<^verbatim>\<open>ValueError\<close>.
\<close>

datatype error = KeyError string | ValueError

fun exception_class :: "error \<Rightarrow> string" where
  "exception_class (KeyError k) = ''KeyError''"
| "exception_class ValueError = ''ValueError''"

subsection \<open>Dictionaries\<close>

text \<open>
  A Python \<^verbatim>\<open>dict\<close> keeps its keys in insertion order and the loops of the
  program iterate in that order, so a dictionary is an association list. Assigning to a
  key that is present replaces the value where it stands; assigning to a new key appends.
\<close>

definition keys :: "('k \<times> 'v) list \<Rightarrow> 'k list" where
  "keys d = map fst d"

definition contains :: "('k \<times> 'v) list \<Rightarrow> 'k \<Rightarrow> bool" where
  "contains d k = (k \<in> set (keys d))"

definition getitem :: "(string \<times> 'v) list \<Rightarrow> string \<Rightarrow> error + 'v" where
  "getitem d k = (case map_of d k of None \<Rightarrow> Inl (KeyError k) | Some v \<Rightarrow> Inr v)"

fun setitem :: "('k \<times> 'v) list \<Rightarrow> 'k \<Rightarrow> 'v \<Rightarrow> ('k \<times> 'v) list" where
  "setitem [] k v = [(k, v)]"
| "setitem ((k', v') # d) k v = (if k' = k then (k, v) # d else (k', v') # setitem d k v)"

subsection \<open>HopInfo, HopsMap, Packet, Node\<close>

datatype hop_info = HopInfo (next_hop: string) (best_distance: pyfloat)

type_synonym hops_map = "(string \<times> hop_info) list"

text \<open>\<^verbatim>\<open>HopsMap.distance_to\<close>: \<^verbatim>\<open>self[node_name].best_distance\<close>.\<close>

definition distance_to :: "hops_map \<Rightarrow> string \<Rightarrow> error + pyfloat" where
  "distance_to m node_name =
     (case getitem m node_name of Inl e \<Rightarrow> Inl e | Inr h \<Rightarrow> Inr (best_distance h))"

text \<open>\<^verbatim>\<open>HopsMap.pass_through\<close>: \<^verbatim>\<open>self[node_name].next_hop\<close>.\<close>

definition pass_through :: "hops_map \<Rightarrow> string \<Rightarrow> error + string" where
  "pass_through m node_name =
     (case getitem m node_name of Inl e \<Rightarrow> Inl e | Inr h \<Rightarrow> Inr (next_hop h))"

datatype packet = Packet (header: string) (content: hops_map)

text \<open>
  A node is its name and its table. Its \<^verbatim>\<open>network\<close> field is the registry
  shared by all nodes, passed to each operation below; its \<^verbatim>\<open>queue\<close> is
  modelled with the store in the section on sending.
\<close>

datatype node = Node (name: string) (map_hops: hops_map)

text \<open>
  The registry \<^verbatim>\<open>network\<close> is the manager dictionary of
  \<^verbatim>\<open>main\<close>: reading \<^verbatim>\<open>network[k]\<close> yields the value last
  stored under \<^verbatim>\<open>k\<close>, a copy that does not follow later changes of the
  node it was made from. During one call of \<^verbatim>\<open>update_table\<close> the registry is
  taken as it stands at the call: writes of other processes in between are not modelled.
\<close>

type_synonym network = "(string \<times> node) list"

section \<open>Relaxation: Node.update_table\<close>

text \<open>
  The body of the inner loop, for one \<^verbatim>\<open>destination\<close> with its
  \<^verbatim>\<open>current_distance\<close> and one key \<^verbatim>\<open>node\<close> of the packet's
  table. The state is the node's table and the flag \<^verbatim>\<open>edited\<close>. Every lookup
  that can raise comes before the assignment, so an iteration that raises leaves the
  state as it found it.
\<close>

definition update_table_body ::
  "network \<Rightarrow> string \<Rightarrow> pyfloat \<Rightarrow> string \<Rightarrow> hops_map \<times> bool \<Rightarrow> error + hops_map \<times> bool" where
  "update_table_body net destination current_distance nd s =
     (case getitem net nd of Inl e \<Rightarrow> Inl e | Inr midway \<Rightarrow>
     (case distance_to (fst s) nd of Inl e \<Rightarrow> Inl e | Inr distance_to_midway \<Rightarrow>
     (case distance_to (map_hops midway) destination of Inl e \<Rightarrow> Inl e | Inr midway_to_node \<Rightarrow>
        (let new_distance = float_add distance_to_midway midway_to_node in
         if float_not midway_to_node then Inr s
         else if float_lt new_distance current_distance then
           (case getitem net destination of Inl e \<Rightarrow> Inl e | Inr dest_node \<Rightarrow>
           (case pass_through (map_hops dest_node) (name midway) of Inl e \<Rightarrow> Inl e | Inr hop \<Rightarrow>
              Inr (setitem (fst s) destination (HopInfo hop new_distance), True)))
         else Inr s))))"

text \<open>
  The inner loop \<^verbatim>\<open>for node in neighbour_table\<close>. The result is the state
  reached and the exception that stopped the loop, if one did: the table is mutated in
  place, so what was written before an exception stays written.
\<close>

fun update_table_inner ::
  "network \<Rightarrow> string \<Rightarrow> pyfloat \<Rightarrow> string list \<Rightarrow> hops_map \<times> bool \<Rightarrow> (hops_map \<times> bool) \<times> error option" where
  "update_table_inner net destination current_distance [] s = (s, None)"
| "update_table_inner net destination current_distance (nd # nds) s =
     (case update_table_body net destination current_distance nd s of
        Inl e \<Rightarrow> (s, Some e)
      | Inr s' \<Rightarrow> update_table_inner net destination current_distance nds s')"

text \<open>
  The outer loop \<^verbatim>\<open>for destination in proxy.map\<close>. The loop only assigns to
  keys that are present, so the keys it iterates over are those of the table at entry;
  \<^verbatim>\<open>current_distance\<close> is read once per destination, before the inner loop.
\<close>

fun update_table_outer ::
  "network \<Rightarrow> string list \<Rightarrow> string list \<Rightarrow> hops_map \<times> bool \<Rightarrow> (hops_map \<times> bool) \<times> error option" where
  "update_table_outer net nds [] s = (s, None)"
| "update_table_outer net nds (destination # ds) s =
     (case distance_to (fst s) destination of
        Inl e \<Rightarrow> (s, Some e)
      | Inr current_distance \<Rightarrow>
          (case update_table_inner net destination current_distance nds s of
             (s', Some e) \<Rightarrow> (s', Some e)
           | (s', None) \<Rightarrow> update_table_outer net nds ds s'))"

text \<open>
  \<^verbatim>\<open>update_table\<close> up to its last statement: the two loops, then the node is
  stored in the registry under its name. The result is the node, the registry and either
  the exception that ended the call (nothing is stored then) or the flag
  \<^verbatim>\<open>edited\<close>, on which the source goes on to \<^verbatim>\<open>send_packets\<close>.
\<close>

definition update_table :: "node \<Rightarrow> network \<Rightarrow> packet \<Rightarrow> node \<times> network \<times> (error + bool)" where
  "update_table self net pkt =
     (case update_table_outer net (keys (content pkt)) (keys (map_hops self)) (map_hops self, False) of
        ((m, edited), Some e) \<Rightarrow> (Node (name self) m, net, Inl e)
      | ((m, edited), None) \<Rightarrow>
          (let proxy = Node (name self) m in (proxy, setitem net (name self) proxy, Inr edited)))"

section \<open>Normalisation: Node.neighbours and Node.normalised\<close>

text \<open>\<^verbatim>\<open>[node for node in self.network.values() if self.name != node.name]\<close>\<close>

definition neighbours :: "node \<Rightarrow> network \<Rightarrow> node list" where
  "neighbours self net = filter (\<lambda>nd. name self \<noteq> name nd) (map snd net)"

text \<open>
  \<^verbatim>\<open>normalised\<close>: every neighbour whose name is not a key of the table gets the
  entry \<^verbatim>\<open>HopInfo(node.name, inf)\<close>.
\<close>

definition normalised_step :: "hops_map \<Rightarrow> node \<Rightarrow> hops_map" where
  "normalised_step m nd =
     (if \<not> contains m (name nd) then setitem m (name nd) (HopInfo (name nd) PInf) else m)"

definition normalised :: "node \<Rightarrow> network \<Rightarrow> node" where
  "normalised self net = Node (name self) (foldl normalised_step (map_hops self) (neighbours self net))"

section \<open>Reading the link file\<close>

subsection \<open>Strings\<close>

text \<open>
  A string is the list of its code points, all below 256. \<^verbatim>\<open>str.isspace\<close> holds
  there for the code points 9 to 13, 28 to 32, 133 and 160.
\<close>

definition isspace :: "char \<Rightarrow> bool" where
  "isspace c = (let n = (of_char c :: nat) in (9 \<le> n \<and> n \<le> 13) \<or> (28 \<le> n \<and> n \<le> 32) \<or> n = 133 \<or> n = 160)"

text \<open>\<^verbatim>\<open>s.strip()\<close>\<close>

definition strip :: "string \<Rightarrow> string" where
  "strip s = rev (dropWhile isspace (rev (dropWhile isspace s)))"

text \<open>\<^verbatim>\<open>s.split(sep)\<close> for a separator of one character: empty fields are kept.\<close>

fun split :: "char \<Rightarrow> string \<Rightarrow> string list" where
  "split sep [] = [[]]"
| "split sep (c # cs) =
     (if c = sep then [] # split sep cs
      else (case split sep cs of f # fs \<Rightarrow> (c # f) # fs | [] \<Rightarrow> [[c]]))"

text \<open>\<^verbatim>\<open>s[1:-1]\<close>\<close>

definition slice_1_m1 :: "string \<Rightarrow> string" where
  "slice_1_m1 s = butlast (tl s)"

subsection \<open>The built-in float(...) on a string\<close>

text \<open>
  \<^verbatim>\<open>float(s)\<close> strips white space and reads an optional sign followed by
  \<^verbatim>\<open>inf\<close>, \<^verbatim>\<open>infinity\<close> or \<^verbatim>\<open>nan\<close> in any case, or by a decimal
  number: digits with single underscores between them, an optional fraction, an
  optional exponent. Anything else raises \<^verbatim>\<open>ValueError\<close>: the result
  \<open>None\<close>. The white space \<^verbatim>\<open>float\<close> strips is that of C (the code points 9
  to 13 and 32) and the spaces beyond ASCII (133 and 160), which it first turns into
  blanks; unlike \<^verbatim>\<open>str.strip\<close> it keeps the code points 28 to 31, which then
  make the text no number. The value is the exact decimal value: that a double rounds
  it, overflows to infinity or underflows to zero is not modelled.
\<close>

definition float_isspace :: "char \<Rightarrow> bool" where
  "float_isspace c = (let n = (of_char c :: nat) in (9 \<le> n \<and> n \<le> 13) \<or> n = 32 \<or> n = 133 \<or> n = 160)"

definition isdigit :: "char \<Rightarrow> bool" where
  "isdigit c = (let n = (of_char c :: nat) in 48 \<le> n \<and> n \<le> 57)"

definition lower :: "char \<Rightarrow> char" where
  "lower c = (let n = (of_char c :: nat) in if 65 \<le> n \<and> n \<le> 90 then char_of (n + 32) else c)"

fun digitpart_ok :: "string \<Rightarrow> bool" where
  "digitpart_ok [] = False"
| "digitpart_ok [c] = isdigit c"
| "digitpart_ok (c # d # r) =
     (isdigit c \<and> (if d = CHR ''_'' then digitpart_ok r else digitpart_ok (d # r)))"

definition digits_value :: "string \<Rightarrow> nat" where
  "digits_value s = foldl (\<lambda>acc c. 10 * acc + (of_char c - 48)) 0 (filter isdigit s)"

definition digitpart :: "string \<Rightarrow> nat option" where
  "digitpart s = (if digitpart_ok s then Some (digits_value s) else None)"

definition float_exponent :: "string \<Rightarrow> int option" where
  "float_exponent s =
     (case s of
        [] \<Rightarrow> None
      | c # r \<Rightarrow>
          if c = CHR ''+'' then map_option int (digitpart r)
          else if c = CHR ''-'' then map_option (\<lambda>n. - int n) (digitpart r)
          else map_option int (digitpart s))"

definition float_mantissa :: "string \<Rightarrow> rat option" where
  "float_mantissa s =
     (let ip = takeWhile (\<lambda>c. c \<noteq> CHR ''.'') s; rest = dropWhile (\<lambda>c. c \<noteq> CHR ''.'') s in
      if rest = [] then map_option of_nat (digitpart ip)
      else
        (let fp = tl rest; frac = (\<lambda>n. of_nat n / 10 ^ length (filter isdigit fp)) in
         if ip = [] then map_option frac (digitpart fp)
         else if fp = [] then map_option of_nat (digitpart ip)
         else
           (case (digitpart ip, digitpart fp) of
              (Some i, Some f) \<Rightarrow> Some (of_nat i + frac f)
            | _ \<Rightarrow> None)))"

definition float_number :: "string \<Rightarrow> rat option" where
  "float_number s =
     (let is_e = (\<lambda>c. c = CHR ''e'' \<or> c = CHR ''E'');
          mant = takeWhile (\<lambda>c. \<not> is_e c) s; rest = dropWhile (\<lambda>c. \<not> is_e c) s in
      case float_mantissa mant of
        None \<Rightarrow> None
      | Some m \<Rightarrow>
          if rest = [] then Some m
          else
            (case float_exponent (tl rest) of
               None \<Rightarrow> None
             | Some x \<Rightarrow> Some (if 0 \<le> x then m * 10 ^ nat x else m / 10 ^ nat (- x))))"

definition float_unsigned :: "string \<Rightarrow> pyfloat option" where
  "float_unsigned s =
     (let l = map lower s in
      if l = ''inf'' \<or> l = ''infinity'' then Some PInf
      else if l = ''nan'' then Some NaN
      else map_option Fin (float_number s))"

fun float_neg :: "pyfloat \<Rightarrow> pyfloat" where
  "float_neg (Fin x) = Fin (- x)"
| "float_neg PInf = NInf"
| "float_neg NInf = PInf"
| "float_neg NaN = NaN"

definition float_of_str :: "string \<Rightarrow> pyfloat option" where
  "float_of_str s =
     (case rev (dropWhile float_isspace (rev (dropWhile float_isspace s))) of
        [] \<Rightarrow> None
      | c # r \<Rightarrow>
          if c = CHR ''+'' then float_unsigned r
          else if c = CHR ''-'' then map_option float_neg (float_unsigned r)
          else float_unsigned (c # r))"

subsection \<open>HopInfo.parse_str\<close>

text \<open>
  \<^verbatim>\<open>normalised = source[1:-1].strip()\<close>, then
  \<^verbatim>\<open>hop, distance = normalised.split(",")\<close>, which raises
  \<^verbatim>\<open>ValueError\<close> unless there are exactly two fields, then
  \<^verbatim>\<open>cls(hop, float(distance))\<close>. The constructor of the dataclass checks nothing.
\<close>

definition parse_str :: "string \<Rightarrow> error + hop_info" where
  "parse_str source =
     (case split (CHR '','') (strip (slice_1_m1 source)) of
        [hop, distance] \<Rightarrow>
          (case float_of_str distance of
             None \<Rightarrow> Inl ValueError
           | Some d \<Rightarrow> Inr (HopInfo hop d))
      | _ \<Rightarrow> Inl ValueError)"

subsection \<open>parse_links\<close>

text \<open>\<^verbatim>\<open>[HopInfo.parse_str(link) for link in links]\<close>: the first failure raises.\<close>

fun parse_strs :: "string list \<Rightarrow> error + hop_info list" where
  "parse_strs [] = Inr []"
| "parse_strs (link # links) =
     (case parse_str link of
        Inl e \<Rightarrow> Inl e
      | Inr h \<Rightarrow> (case parse_strs links of Inl e \<Rightarrow> Inl e | Inr hs \<Rightarrow> Inr (h # hs)))"

type_synonym links = "(string \<times> hop_info list) list"

text \<open>
  The loop over the lines of the file, with the dictionary \<^verbatim>\<open>matrices\<close>. A line
  matches \<^verbatim>\<open>case name, *links if links\<close> when splitting it at single spaces
  gives a first field and at least one more.
\<close>

fun parse_lines :: "string list \<Rightarrow> links \<Rightarrow> error + links" where
  "parse_lines [] matrices = Inr matrices"
| "parse_lines (line # rest) matrices =
     (case split (CHR '' '') (strip line) of
        nm # lks \<Rightarrow>
          if lks \<noteq> [] then
            (case parse_strs lks of
               Inl e \<Rightarrow> Inl e
             | Inr hs \<Rightarrow> parse_lines rest (setitem matrices nm (HopInfo nm (Fin 0) # hs)))
          else parse_lines rest matrices
      | [] \<Rightarrow> parse_lines rest matrices)"

text \<open>\<^verbatim>\<open>parse_links\<close>, given the lines of the file it opens.\<close>

definition parse_links :: "string list \<Rightarrow> error + links" where
  "parse_links lines = parse_lines lines []"

subsection \<open>Node.from_links\<close>

text \<open>\<^verbatim>\<open>_hop_from\<close>: the first hop of the list with the given name.\<close>

fun hop_from :: "string \<Rightarrow> hop_info list \<Rightarrow> error + hop_info" where
  "hop_from nm [] = Inl ValueError"
| "hop_from nm (hop # hops) = (if next_hop hop = nm then Inr hop else hop_from nm hops)"

text \<open>
  The dictionary comprehension
  \<^verbatim>\<open>{hop.next_hop: _hop_from(hop.next_hop, hops) for hop in hops}\<close>: \<open>todo\<close> are
  the hops still to visit, \<open>hops\<close> the whole list.
\<close>

fun hops_dict :: "hop_info list \<Rightarrow> hop_info list \<Rightarrow> hops_map \<Rightarrow> error + hops_map" where
  "hops_dict hops [] d = Inr d"
| "hops_dict hops (hop # todo) d =
     (case hop_from (next_hop hop) hops of
        Inl e \<Rightarrow> Inl e
      | Inr h \<Rightarrow> hops_dict hops todo (setitem d (next_hop hop) h))"

fun from_links :: "links \<Rightarrow> error + node list" where
  "from_links [] = Inr []"
| "from_links ((nm, hops) # rest) =
     (case hops_dict hops hops [] of
        Inl e \<Rightarrow> Inl e
      | Inr m \<Rightarrow> (case from_links rest of Inl e \<Rightarrow> Inl e | Inr nodes \<Rightarrow> Inr (Node nm m # nodes)))"

section \<open>Sending: Node.dummy_packet, Node.and_send, Node.send_packets\<close>

text \<open>
  Whether a sent packet follows later changes of the sender's table depends on what is
  shared, so here the tables are objects in a store and a node and a packet hold
  references to them. A reference that was never assigned holds the empty table.
\<close>

type_synonym ref = nat

type_synonym store = "ref \<Rightarrow> hops_map"

text \<open>A \<^verbatim>\<open>Node\<close> object: its name, its \<^verbatim>\<open>map\<close> and its \<^verbatim>\<open>queue\<close>.\<close>

datatype node_obj = NodeObj (obj_name: string) (map_ref: ref) (queue_ref: ref)

text \<open>A \<^verbatim>\<open>Packet\<close> object: its header and its \<^verbatim>\<open>content\<close>.\<close>

datatype packet_obj = PacketObj (obj_header: string) (content_ref: ref)

text \<open>
  The field \<^verbatim>\<open>queue\<close> is declared as \<^verbatim>\<open>queue.Queue\<close>, which keeps the
  object that was put. \<^verbatim>\<open>main\<close> installs \<^verbatim>\<open>manager.Queue()\<close>, whose
  \<^verbatim>\<open>put\<close> pickles its argument for the manager process: the queue then holds the
  value the packet had at that moment.
\<close>

datatype queue_kind = InProcess | Managed

datatype queued = Reference packet_obj | Pickled packet

type_synonym queues = "ref \<Rightarrow> queued list"

text \<open>\<^verbatim>\<open>str(n)\<close> for the result of \<^verbatim>\<open>time_ns()\<close>.\<close>

fun str_nat :: "nat \<Rightarrow> string" where
  "str_nat n = (if n < 10 then [char_of (48 + n)] else str_nat (n div 10) @ [char_of (48 + n mod 10)])"

text \<open>
  \<^verbatim>\<open>dummy_packet\<close>:
  \<^verbatim>\<open>Packet(f"Message from: {self.name}.\nTime: {time_ns()}\n", self.map)\<close>. The clock
  is a parameter. The second argument is the table object itself.
\<close>

definition dummy_packet :: "node_obj \<Rightarrow> nat \<Rightarrow> packet_obj" where
  "dummy_packet self time_ns =
     PacketObj (''Message from: '' @ obj_name self @ ''.'' @ [CHR 0x0A] @ ''Time: '' @ str_nat time_ns @ [CHR 0x0A])
       (map_ref self)"

text \<open>\<^verbatim>\<open>queue.put(packet)\<close>: what the queue holds afterwards.\<close>

definition put :: "queue_kind \<Rightarrow> store \<Rightarrow> packet_obj \<Rightarrow> queued" where
  "put kind st p =
     (case kind of
        InProcess \<Rightarrow> Reference p
      | Managed \<Rightarrow> Pickled (Packet (obj_header p) (st (content_ref p))))"

text \<open>\<^verbatim>\<open>and_send\<close>: \<^verbatim>\<open>destination.queue.put(packet)\<close>.\<close>

definition and_send :: "queue_kind \<Rightarrow> store \<Rightarrow> queues \<Rightarrow> node_obj \<Rightarrow> packet_obj \<Rightarrow> queues" where
  "and_send kind st qs destination p =
     qs(queue_ref destination := qs (queue_ref destination) @ [put kind st p])"

text \<open>\<^verbatim>\<open>neighbours\<close>, on the node objects of the registry.\<close>

definition neighbour_objs :: "node_obj \<Rightarrow> node_obj list \<Rightarrow> node_obj list" where
  "neighbour_objs self registry = filter (\<lambda>nd. obj_name self \<noteq> obj_name nd) registry"

text \<open>
  \<^verbatim>\<open>send_packets()\<close> up to its last statement: one packet is built and put into
  the queue of every neighbour. The source then calls \<^verbatim>\<open>wait_for_packets\<close>.
\<close>

definition send_packets_sends ::
  "queue_kind \<Rightarrow> store \<Rightarrow> queues \<Rightarrow> node_obj \<Rightarrow> nat \<Rightarrow> node_obj list \<Rightarrow> queues" where
  "send_packets_sends kind st qs self time_ns registry =
     foldl (\<lambda>qs' neighbour. and_send kind st qs' neighbour (dummy_packet self time_ns))
       qs (neighbour_objs self registry)"

text \<open>\<^verbatim>\<open>packet.content\<close> of a packet taken from a queue, read in the store \<open>st\<close>.\<close>

fun received_content :: "store \<Rightarrow> queued \<Rightarrow> hops_map" where
  "received_content st (Reference p) = st (content_ref p)"
| "received_content st (Pickled p) = content p"

text \<open>The assignment \<^verbatim>\<open>proxy.map[destination] = HopInfo(...)\<close> on a table object.\<close>

definition store_setitem :: "store \<Rightarrow> ref \<Rightarrow> string \<Rightarrow> hop_info \<Rightarrow> store" where
  "store_setitem st r k h = st(r := setitem (st r) k h)"

section \<open>Predicates and example networks used by the properties\<close>

text \<open>
  The table \<open>m'\<close> is nowhere above \<open>m\<close>: every destination of \<open>m\<close> is a destination
  of \<open>m'\<close>, with the same distance or one that \<^verbatim>\<open><\<close> puts below it.
\<close>

definition dist_le :: "hops_map \<Rightarrow> hops_map \<Rightarrow> bool" where
  "dist_le m' m =
     (\<forall>d v. distance_to m d = Inr v \<longrightarrow> (\<exists>v'. distance_to m' d = Inr v' \<and> (v' = v \<or> float_lt v' v)))"

text \<open>
  The candidate for destination \<open>d\<close> through \<open>nd\<close> exists and is not smaller than the
  entry for \<open>d\<close>: the four lookups of the loop succeed and
  \<^verbatim>\<open>distance_to_midway + midway_to_node < current_distance\<close> is false.
\<close>

definition pair_not_better :: "network \<Rightarrow> hops_map \<Rightarrow> string \<Rightarrow> string \<Rightarrow> bool" where
  "pair_not_better net m d nd =
     (case getitem net nd of Inl _ \<Rightarrow> False | Inr midway \<Rightarrow>
     (case distance_to m nd of Inl _ \<Rightarrow> False | Inr to_via \<Rightarrow>
     (case distance_to (map_hops midway) d of Inl _ \<Rightarrow> False | Inr via_to_dest \<Rightarrow>
     (case distance_to m d of Inl _ \<Rightarrow> False | Inr cur \<Rightarrow>
        \<not> float_lt (float_add to_via via_to_dest) cur))))"

definition no_improvement :: "network \<Rightarrow> hops_map \<Rightarrow> string list \<Rightarrow> bool" where
  "no_improvement net m nds = (\<forall>d \<in> set (keys m). \<forall>nd \<in> set nds. pair_not_better net m d nd)"

text \<open>
  Four nodes, every table total over them. A reaches B and C at cost 1 and knows D at
  cost 10; B reaches D at cost 2, C reaches D at cost 3.
\<close>

definition ex_A :: hops_map where
  "ex_A = [(''A'', HopInfo ''A'' (Fin 0)), (''B'', HopInfo ''B'' (Fin 1)),
           (''C'', HopInfo ''C'' (Fin 1)), (''D'', HopInfo ''D'' (Fin 10))]"

definition ex_B :: hops_map where
  "ex_B = [(''B'', HopInfo ''B'' (Fin 0)), (''A'', HopInfo ''A'' (Fin 1)),
           (''C'', HopInfo ''C'' (Fin 5)), (''D'', HopInfo ''D'' (Fin 2))]"

definition ex_C :: hops_map where
  "ex_C = [(''C'', HopInfo ''C'' (Fin 0)), (''A'', HopInfo ''A'' (Fin 1)),
           (''B'', HopInfo ''B'' (Fin 5)), (''D'', HopInfo ''D'' (Fin 3))]"

definition ex_D :: hops_map where
  "ex_D = [(''D'', HopInfo ''D'' (Fin 0)), (''A'', HopInfo ''A'' (Fin 10)),
           (''B'', HopInfo ''B'' (Fin 2)), (''C'', HopInfo ''C'' (Fin 3))]"

definition ex_net :: network where
  "ex_net = [(''A'', Node ''A'' ex_A), (''B'', Node ''B'' ex_B),
             (''C'', Node ''C'' ex_C), (''D'', Node ''D'' ex_D)]"

text \<open>The triangle A-B 1, B-C 1, A-C 5 with its shortest distances.\<close>

definition tri_A :: hops_map where
  "tri_A = [(''A'', HopInfo ''A'' (Fin 0)), (''B'', HopInfo ''B'' (Fin 1)), (''C'', HopInfo ''B'' (Fin 2))]"

definition tri_B :: hops_map where
  "tri_B = [(''B'', HopInfo ''B'' (Fin 0)), (''A'', HopInfo ''A'' (Fin 1)), (''C'', HopInfo ''C'' (Fin 1))]"

definition tri_C :: hops_map where
  "tri_C = [(''C'', HopInfo ''C'' (Fin 0)), (''A'', HopInfo ''B'' (Fin 2)), (''B'', HopInfo ''B'' (Fin 1))]"

definition tri_net :: network where
  "tri_net = [(''A'', Node ''A'' tri_A), (''B'', Node ''B'' tri_B), (''C'', Node ''C'' tri_C)]"


text \<open>
  The first two statements of \<^verbatim>\<open>main\<close>:
  \<^verbatim>\<open>links = parse_links(filename)\<close>, \<^verbatim>\<open>nodes = Node.from_links(links)\<close>.
\<close>

definition main_nodes :: "string list \<Rightarrow> error + node list" where
  "main_nodes lines = (case parse_links lines of Inl e \<Rightarrow> Inl e | Inr links \<Rightarrow> from_links links)"


text \<open>
  Two nodes built by \<^verbatim>\<open>from_links\<close> from links in which the hops of A do not
  start with a hop to A itself.
\<close>

definition lone_A :: node where
  "lone_A = Node ''A'' [(''B'', HopInfo ''B'' (Fin 1))]"

definition lone_net :: network where
  "lone_net = [(''A'', lone_A),
               (''B'', Node ''B'' [(''B'', HopInfo ''B'' (Fin 0)), (''A'', HopInfo ''A'' (Fin 1))])]"

text \<open>The network A, B, C, D in which the table of A covers A, B and C.\<close>

definition quad_A :: node where
  "quad_A = Node ''A'' [(''A'', HopInfo ''A'' (Fin 0)), (''B'', HopInfo ''B'' (Fin 1)),
                        (''C'', HopInfo ''C'' (Fin 2.5))]"

definition quad_net :: network where
  "quad_net = [(''A'', quad_A), (''B'', Node ''B'' []), (''C'', Node ''C'' []), (''D'', Node ''D'' [])]"

text \<open>Nodes A and B as objects, with their tables of the four-node network in the store.\<close>

definition obj_A :: node_obj where
  "obj_A = NodeObj ''A'' 0 10"

definition obj_B :: node_obj where
  "obj_B = NodeObj ''B'' 1 11"

definition ex_store :: store where
  "ex_store = (\<lambda>r. [])(0 := ex_A, 1 := ex_B)"






text \<open>
  The lines of a file, as the properties speak of them. \<open>link_line\<close> is the pattern
  \<^verbatim>\<open>case name, *links if links\<close> on one line: the name and the tokens of a line
  that matches. \<open>parsed_line\<close> is the value stored for such a line when all its tokens
  parse: the name with the hop to itself at cost 0 followed by the hops of the tokens.
  \<open>file_entries\<close> are these values for the matching lines of a file, in order, when
  every token of every matching line parses.
\<close>

definition link_line :: "string \<Rightarrow> (string \<times> string list) option" where
  "link_line line =
     (case split (CHR '' '') (strip line) of
        nm # lks \<Rightarrow> if lks \<noteq> [] then Some (nm, lks) else None
      | [] \<Rightarrow> None)"

definition parsed_line :: "string \<times> string list \<Rightarrow> (string \<times> hop_info list) option" where
  "parsed_line entry =
     (case parse_strs (snd entry) of
        Inl _ \<Rightarrow> None
      | Inr hs \<Rightarrow> Some (fst entry, HopInfo (fst entry) (Fin 0) # hs))"

definition file_entries :: "string list \<Rightarrow> (string \<times> hop_info list) list option" where
  "file_entries lines = those (map parsed_line (List.map_filter link_line lines))"

text \<open>The elements of a list in the order of their first occurrence, each once.\<close>

fun first_occurrences :: "'a list \<Rightarrow> 'a list" where
  "first_occurrences [] = []"
| "first_occurrences (x # xs) = x # removeAll x (first_occurrences xs)"

text \<open>The first hop of a list that leads to \<open>k\<close>.\<close>

definition first_hop :: "hop_info list \<Rightarrow> string \<Rightarrow> hop_info option" where
  "first_hop hops k = List.find (\<lambda>h. next_hop h = k) hops"

text \<open>A file with two lines for A, an empty line, and a line that names C twice.\<close>

definition two_A_lines :: "string list" where
  "two_A_lines = [''A (B,1) (C,5)'', ''B (A,1)'', '''', ''A (C,3) (C,4)'']"

definition two_A_entries :: "(string \<times> hop_info list) list" where
  "two_A_entries =
     [(''A'', [HopInfo ''A'' (Fin 0), HopInfo ''B'' (Fin 1), HopInfo ''C'' (Fin 5)]),
      (''B'', [HopInfo ''B'' (Fin 0), HopInfo ''A'' (Fin 1)]),
      (''A'', [HopInfo ''A'' (Fin 0), HopInfo ''C'' (Fin 3), HopInfo ''C'' (Fin 4)])]"

section \<open>Facts about floats and dictionaries\<close>

lemma float_lt_irrefl: "\<not> float_lt x x"
  by (cases x) auto

lemma float_lt_trans: "float_lt x y \<Longrightarrow> float_lt y z \<Longrightarrow> float_lt x z"
  by (cases x; cases y; cases z) auto

lemma setitem_setitem: "setitem (setitem d k v) k w = setitem d k w"
  by (induction d) auto

lemma map_of_setitem: "map_of (setitem d k v) k' = (if k' = k then Some v else map_of d k')"
  by (induction d) auto

lemma keys_setitem: "keys (setitem d k v) = (if k \<in> set (keys d) then keys d else keys d @ [k])"
  by (induction d) (force simp: keys_def)+

lemma distance_to_setitem:
  "distance_to (setitem m k h) k' = (if k' = k then Inr (best_distance h) else distance_to m k')"
  by (simp add: distance_to_def getitem_def map_of_setitem)

lemma distance_to_key: "k \<in> set (keys m) \<Longrightarrow> \<exists>v. distance_to m k = Inr v"
  by (induction m) (auto simp: keys_def distance_to_def getitem_def)

section \<open>Properties of the relaxation\<close>

subsection \<open>What one pass of the inner loop can do\<close>

text \<open>
  One iteration either leaves the state as it is or assigns, to the destination, a
  candidate that is below \<^verbatim>\<open>current_distance\<close>.
\<close>

lemma body_cases:
  assumes "update_table_body net d cur nd (m, e) = Inr (m', e')"
  shows "(m' = m \<and> e' = e) \<or> (\<exists>hop v. m' = setitem m d (HopInfo hop v) \<and> float_lt v cur \<and> e')"
  using assms
  by (auto simp: update_table_body_def Let_def split: sum.splits if_splits)

lemma inner_cases:
  "update_table_inner net d cur nds (m, e) = ((m', e'), r) \<Longrightarrow>
   (m' = m \<and> e' = e) \<or> (\<exists>hop v. m' = setitem m d (HopInfo hop v) \<and> float_lt v cur \<and> e')"
proof (induction nds arbitrary: m e)
  case Nil
  then show ?case by simp
next
  case (Cons nd nds)
  show ?case
  proof (cases "update_table_body net d cur nd (m, e)")
    case (Inl err)
    with Cons.prems show ?thesis by simp
  next
    case (Inr s1)
    obtain m1 e1 where s1: "s1 = (m1, e1)" by (cases s1)
    from Cons.prems Inr s1 have rest: "update_table_inner net d cur nds (m1, e1) = ((m', e'), r)"
      by simp
    from Cons.IH[OF rest] body_cases[OF Inr[unfolded s1]] show ?thesis
      by (auto simp: setitem_setitem)
  qed
qed

subsection \<open>Distances never grow\<close>

lemma dist_le_refl: "dist_le m m"
  by (simp add: dist_le_def)

lemma dist_le_trans: "dist_le m2 m1 \<Longrightarrow> dist_le m1 m \<Longrightarrow> dist_le m2 m"
proof (unfold dist_le_def, intro allI impI)
  fix d v
  assume a2: "\<forall>d v. distance_to m1 d = Inr v \<longrightarrow> (\<exists>v'. distance_to m2 d = Inr v' \<and> (v' = v \<or> float_lt v' v))"
    and a1: "\<forall>d v. distance_to m d = Inr v \<longrightarrow> (\<exists>v'. distance_to m1 d = Inr v' \<and> (v' = v \<or> float_lt v' v))"
    and d: "distance_to m d = Inr v"
  from a1 d obtain v1 where v1: "distance_to m1 d = Inr v1" "v1 = v \<or> float_lt v1 v" by blast
  from a2 v1(1) obtain v2 where v2: "distance_to m2 d = Inr v2" "v2 = v1 \<or> float_lt v2 v1" by blast
  from v1(2) v2(2) have "v2 = v \<or> float_lt v2 v" by (auto dest: float_lt_trans)
  with v2(1) show "\<exists>v'. distance_to m2 d = Inr v' \<and> (v' = v \<or> float_lt v' v)" by blast
qed

lemma inner_dist_le:
  assumes "update_table_inner net d cur nds (m, e) = ((m', e'), r)" and "distance_to m d = Inr cur"
  shows "dist_le m' m"
  using inner_cases[OF assms(1)] assms(2)
  by (auto simp: dist_le_def distance_to_setitem)

lemma outer_dist_le:
  "update_table_outer net nds ds (m, e) = ((m', e'), r) \<Longrightarrow> dist_le m' m"
proof (induction ds arbitrary: m e)
  case Nil
  then show ?case by (simp add: dist_le_refl)
next
  case (Cons d ds)
  show ?case
  proof (cases "distance_to m d")
    case (Inl err)
    with Cons.prems show ?thesis by (simp add: dist_le_refl)
  next
    case (Inr cur)
    obtain m1 e1 r1 where inner: "update_table_inner net d cur nds (m, e) = ((m1, e1), r1)"
      by (metis surj_pair)
    have le1: "dist_le m1 m" by (rule inner_dist_le[OF inner Inr])
    show ?thesis
    proof (cases r1)
      case None
      with Cons.prems Inr inner have "update_table_outer net nds ds (m1, e1) = ((m', e'), r)"
        by simp
      from Cons.IH[OF this] le1 show ?thesis by (rule dist_le_trans)
    next
      case (Some err)
      with Cons.prems Inr inner have "m' = m1" by simp
      with le1 show ?thesis by simp
    qed
  qed
qed

text \<open>
  Claim C10. One call of \<^verbatim>\<open>update_table\<close> never raises a stored distance: for every
  destination \<open>d\<close> of the node's table with distance \<open>v\<close> at entry, the table after the
  call (also the table left behind by a call that raises) has \<open>d\<close> with a distance that
  is \<open>v\<close> itself or is \<^verbatim>\<open><\<close> \<open>v\<close>.
\<close>

theorem update_table_monotone:
  assumes "distance_to (map_hops self) d = Inr v"
  shows "\<exists>v'. distance_to (map_hops (fst (update_table self net pkt))) d = Inr v' \<and>
              (v' = v \<or> float_lt v' v)"
proof -
  obtain m' e' r where o:
    "update_table_outer net (keys (content pkt)) (keys (map_hops self)) (map_hops self, False)
       = ((m', e'), r)"
    by (metis surj_pair)
  have "dist_le m' (map_hops self)" by (rule outer_dist_le[OF o])
  moreover have "map_hops (fst (update_table self net pkt)) = m'"
    using o by (cases r) (simp_all add: update_table_def Let_def)
  ultimately show ?thesis using assms by (simp add: dist_le_def)
qed

theorem update_table_monotone_witness:
  "distance_to (map_hops (Node ''A'' ex_A)) ''D'' = Inr (Fin 10) \<and>
   (\<exists>v'. distance_to (map_hops (fst (update_table (Node ''A'' ex_A) ex_net (Packet ''Message from: B.'' ex_B)))) ''D''
            = Inr v' \<and> (v' = Fin 10 \<or> float_lt v' (Fin 10)))"
proof -
  have h: "distance_to (map_hops (Node ''A'' ex_A)) ''D'' = Inr (Fin 10)"
    by (simp add: ex_A_def distance_to_def getitem_def)
  from update_table_monotone[OF h] h show ?thesis by blast
qed

subsection \<open>The comparison uses the distance read before the inner loop\<close>

text \<open>
  Claim C1. The claim asks that, once a candidate for a destination is stored, later
  candidates of the same call are compared with the stored value. The code compares
  every candidate with \<^verbatim>\<open>current_distance\<close>, read once before the inner loop and
  never assigned again. In the four-node network, node A relaxing against the packet of
  B first stores D at cost 3 through B (1 + 2, below the 10 it had), and then the
  candidate through C, 1 + 3 = 4, is below 10 as well and replaces it: the call ends
  with D at cost 4, above the 3 it had stored.
\<close>

theorem stale_current_distance:
  "update_table_inner ex_net ''D'' (Fin 10) [''B''] (ex_A, False)
     = ((setitem ex_A ''D'' (HopInfo ''B'' (Fin 3)), True), None) \<and>
   update_table_inner ex_net ''D'' (Fin 10) [''B'', ''A'', ''C''] (ex_A, False)
     = ((setitem ex_A ''D'' (HopInfo ''C'' (Fin 4)), True), None) \<and>
   update_table (Node ''A'' ex_A) ex_net (Packet ''Message from: B.'' ex_B)
     = (Node ''A'' (setitem ex_A ''D'' (HopInfo ''C'' (Fin 4))),
        setitem ex_net ''A'' (Node ''A'' (setitem ex_A ''D'' (HopInfo ''C'' (Fin 4)))),
        Inr True)"
  by code_simp

subsection \<open>Fixed point\<close>

lemma body_not_better:
  assumes "pair_not_better net m d nd" and "distance_to m d = Inr cur"
  shows "update_table_body net d cur nd (m, e) = Inr (m, e)"
  using assms
  by (auto simp: pair_not_better_def update_table_body_def Let_def split: sum.splits)

lemma inner_not_better:
  assumes "\<forall>nd \<in> set nds. pair_not_better net m d nd" and "distance_to m d = Inr cur"
  shows "update_table_inner net d cur nds (m, e) = ((m, e), None)"
  using assms by (induction nds) (simp_all add: body_not_better)

lemma outer_not_better:
  assumes "\<forall>d \<in> set ds. \<forall>nd \<in> set nds. pair_not_better net m d nd" and "set ds \<subseteq> set (keys m)"
  shows "update_table_outer net nds ds (m, e) = ((m, e), None)"
  using assms
proof (induction ds)
  case Nil
  then show ?case by simp
next
  case (Cons d ds)
  from Cons.prems(2) obtain cur where cur: "distance_to m d = Inr cur"
    using distance_to_key[of d m] by auto
  from Cons.prems(1) have "\<forall>nd \<in> set nds. pair_not_better net m d nd" by simp
  from inner_not_better[OF this cur]
  have "update_table_inner net d cur nds (m, e) = ((m, e), None)" .
  moreover from Cons have "update_table_outer net nds ds (m, e) = ((m, e), None)" by simp
  ultimately show ?case using cur by simp
qed

text \<open>
  Claim C3. If, for every destination \<open>d\<close> of the node's table and every key \<open>n\<close> of the
  packet's table, the candidate (the node's distance to \<open>n\<close> plus the distance from \<open>n\<close>
  to \<open>d\<close> that the registry holds) is not smaller than the node's entry for \<open>d\<close>, then
  \<^verbatim>\<open>update_table\<close> leaves the node's table as it is, stores the unchanged node in
  the registry and ends with \<^verbatim>\<open>edited\<close> false.
\<close>

theorem relax_fixed_point:
  assumes "no_improvement net (map_hops self) (keys (content pkt))"
  shows "update_table self net pkt = (self, setitem net (name self) self, Inr False)"
proof -
  from assms
  have "update_table_outer net (keys (content pkt)) (keys (map_hops self)) (map_hops self, False)
          = ((map_hops self, False), None)"
    by (intro outer_not_better) (simp_all add: no_improvement_def)
  then show ?thesis by (simp add: update_table_def)
qed

theorem relax_fixed_point_witness:
  "no_improvement tri_net tri_A (keys tri_B) \<and>
   update_table (Node ''A'' tri_A) tri_net (Packet ''Message from: B.'' tri_B)
     = (Node ''A'' tri_A, tri_net, Inr False)"
proof -
  have h: "no_improvement tri_net (map_hops (Node ''A'' tri_A)) (keys (content (Packet ''Message from: B.'' tri_B)))"
    by (simp add: no_improvement_def pair_not_better_def keys_def tri_A_def tri_B_def tri_C_def
        tri_net_def getitem_def distance_to_def)
  have "setitem tri_net ''A'' (Node ''A'' tri_A) = tri_net"
    by (simp add: tri_net_def)
  with relax_fixed_point[OF h] h show ?thesis by simp
qed

subsection \<open>The guard on a zero cost\<close>

text \<open>
  Claim C4. When the registry's node for \<open>nd\<close> has cost 0 to the destination, the
  iteration for that pair leaves the table and the flag as they are (it raises, with
  nothing written, only if the node's own table has no entry for \<open>nd\<close>); when the
  node's table has the entry, the iteration is the \<^verbatim>\<open>continue\<close> and the loop
  goes on as if the pair were not there, whatever \<^verbatim>\<open>current_distance\<close> is.
\<close>

theorem zero_cost_via_skipped:
  assumes "getitem net nd = Inr midway"
    and "distance_to (map_hops midway) destination = Inr (Fin 0)"
  shows "fst (update_table_inner net destination current_distance [nd] s) = s \<and>
         (\<forall>to_via. distance_to (fst s) nd = Inr to_via \<longrightarrow>
            update_table_body net destination current_distance nd s = Inr s \<and>
            update_table_inner net destination current_distance (nd # nds) s
              = update_table_inner net destination current_distance nds s)"
  using assms
  by (auto simp: update_table_body_def float_not_def split: sum.splits)

theorem zero_cost_via_skipped_witness:
  "getitem ex_net ''D'' = Inr (Node ''D'' ex_D) \<and>
   distance_to (map_hops (Node ''D'' ex_D)) ''D'' = Inr (Fin 0) \<and>
   distance_to ex_A ''D'' = Inr (Fin 10) \<and>
   update_table_body ex_net ''D'' (Fin 10) ''D'' (ex_A, False) = Inr (ex_A, False)"
proof -
  have a: "getitem ex_net ''D'' = Inr (Node ''D'' ex_D)"
    by (simp add: ex_net_def getitem_def)
  have b: "distance_to (map_hops (Node ''D'' ex_D)) ''D'' = Inr (Fin 0)"
    by (simp add: ex_D_def distance_to_def getitem_def)
  have c: "distance_to (fst (ex_A, False)) ''D'' = Inr (Fin 10)"
    by (simp add: ex_A_def distance_to_def getitem_def)
  from zero_cost_via_skipped[OF a b, of "Fin 10" "(ex_A, False)" "[]"] a b c show ?thesis
    by simp
qed

subsection \<open>What the packet contributes\<close>

text \<open>
  Claim C5, as amended. The loop iterates over the keys of the packet's table and reads
  every cost from the node's own table and from the registry: two packets whose tables
  have the same keys in the same order give the same result (table, registry and
  outcome), whatever hop records stand under the keys.
\<close>

theorem packet_values_not_read:
  assumes "keys (content p1) = keys (content p2)"
  shows "update_table self net p1 = update_table self net p2"
  using assms by (simp add: update_table_def)

theorem packet_values_not_read_witness:
  "keys (content (Packet ''p'' ex_B))
     = keys (content (Packet ''q'' (map (\<lambda>(k, h). (k, HopInfo ''Z'' NaN)) ex_B))) \<and>
   update_table (Node ''A'' ex_A) ex_net (Packet ''p'' ex_B)
     = update_table (Node ''A'' ex_A) ex_net (Packet ''q'' (map (\<lambda>(k, h). (k, HopInfo ''Z'' NaN)) ex_B))"
proof -
  have h: "keys (content (Packet ''p'' ex_B))
             = keys (content (Packet ''q'' (map (\<lambda>(k, h). (k, HopInfo ''Z'' NaN)) ex_B)))"
    by (simp add: keys_def ex_B_def)
  from packet_values_not_read[OF h] h show ?thesis by simp
qed

text \<open>
  The claim as written speaks of the same set of keys. The tables of B and of C have the
  same set of keys in different orders, and node A ends with D at cost 4 through C
  against the packet of B, and with D at cost 3 through B against the packet of C: for
  each destination the last candidate below \<^verbatim>\<open>current_distance\<close> stays.
\<close>

theorem packet_key_order_counterexample:
  "set (keys (content (Packet ''p'' ex_B))) = set (keys (content (Packet ''q'' ex_C))) \<and>
   map_hops (fst (update_table (Node ''A'' ex_A) ex_net (Packet ''p'' ex_B)))
     \<noteq> map_hops (fst (update_table (Node ''A'' ex_A) ex_net (Packet ''q'' ex_C)))"
proof -
  have 1: "map_hops (fst (update_table (Node ''A'' ex_A) ex_net (Packet ''p'' ex_B)))
        = [(''A'', HopInfo ''A'' (Fin 0)), (''B'', HopInfo ''B'' (Fin 1)),
           (''C'', HopInfo ''C'' (Fin 1)), (''D'', HopInfo ''C'' (Fin 4))]"
    by code_simp
  have 2: "map_hops (fst (update_table (Node ''A'' ex_A) ex_net (Packet ''q'' ex_C)))
        = [(''A'', HopInfo ''A'' (Fin 0)), (''B'', HopInfo ''B'' (Fin 1)),
           (''C'', HopInfo ''C'' (Fin 1)), (''D'', HopInfo ''B'' (Fin 3))]"
    by code_simp
  have 3: "set (keys (content (Packet ''p'' ex_B))) = set (keys (content (Packet ''q'' ex_C)))"
    by (auto simp: keys_def ex_B_def ex_C_def)
  show ?thesis unfolding 1 2 using 3 by simp
qed

section \<open>Exceptions of the lookups\<close>

lemma getitem_absent: "\<not> contains d k \<Longrightarrow> getitem d k = Inl (KeyError k)"
  by (induction d) (auto simp: contains_def keys_def getitem_def)
























section \<open>Properties of the normalisation\<close>

lemma setitem_absent: "k \<notin> set (keys d) \<Longrightarrow> setitem d k v = d @ [(k, v)]"
  by (induction d) (auto simp: keys_def)

lemma normalised_step_cases:
  "normalised_step m nd = (if contains m (name nd) then m else m @ [(name nd, HopInfo (name nd) PInf)])"
  by (simp add: normalised_step_def contains_def setitem_absent)

lemma normalised_fold_extends: "\<exists>ext. foldl normalised_step m nds = m @ ext"
proof (induction nds arbitrary: m)
  case Nil
  then show ?case by simp
next
  case (Cons nd nds)
  obtain ext where e: "foldl normalised_step (normalised_step m nd) nds = normalised_step m nd @ ext"
    using Cons.IH by blast
  obtain ext0 where "normalised_step m nd = m @ ext0"
    using normalised_step_cases[of m nd] by (cases "contains m (name nd)") auto
  with e have "foldl normalised_step m (nd # nds) = m @ (ext0 @ ext)" by simp
  then show ?case by blast
qed

lemma map_of_extends: "map_of m k = Some h \<Longrightarrow> map_of (m @ ext) k = Some h"
  by (simp add: map_add_Some_iff)

lemma contains_map_of: "contains m k = (map_of m k \<noteq> None)"
  by (simp add: contains_def keys_def map_of_eq_None_iff)

lemma contains_extends: "contains m k \<Longrightarrow> contains (m @ ext) k"
  by (auto simp: contains_def keys_def)

lemma normalised_fold_keeps:
  "contains m k \<Longrightarrow> contains (foldl normalised_step m nds) k"
  using normalised_fold_extends[of m nds] by (auto simp: contains_extends)

lemma normalised_fold_adds:
  assumes "nd \<in> set nds" and "\<not> contains m (name nd)"
  shows "getitem (foldl normalised_step m nds) (name nd) = Inr (HopInfo (name nd) PInf)"
  using assms
proof (induction nds arbitrary: m)
  case Nil
  then show ?case by simp
next
  case (Cons x xs)
  show ?case
  proof (cases "name x = name nd")
    case True
    with Cons.prems(2) have "map_of (normalised_step m x) (name nd) = Some (HopInfo (name nd) PInf)"
      by (simp add: normalised_step_cases contains_map_of map_add_Some_iff)
    moreover obtain ext where "foldl normalised_step (normalised_step m x) xs = normalised_step m x @ ext"
      using normalised_fold_extends by blast
    ultimately show ?thesis by (simp add: getitem_def map_add_Some_iff)
  next
    case False
    with Cons.prems(1) have in_xs: "nd \<in> set xs" by auto
    from False Cons.prems(2) have "\<not> contains (normalised_step m x) (name nd)"
      by (auto simp: normalised_step_cases contains_def keys_def)
    from Cons.IH[OF in_xs this] show ?thesis by simp
  qed
qed

lemma normalised_fold_covers:
  "nd \<in> set nds \<Longrightarrow> contains (foldl normalised_step m nds) (name nd)"
proof (cases "contains m (name nd)")
  case True
  then show ?thesis by (rule normalised_fold_keeps)
next
  case False
  assume "nd \<in> set nds"
  from normalised_fold_adds[OF this False] show ?thesis
    using getitem_absent[of "foldl normalised_step m nds" "name nd"] by auto
qed

lemma normalised_step_distinct: "distinct (keys m) \<Longrightarrow> distinct (keys (normalised_step m nd))"
  by (auto simp: normalised_step_cases contains_def keys_def)

lemma normalised_fold_distinct:
  "distinct (keys m) \<Longrightarrow> distinct (keys (foldl normalised_step m nds))"
  by (induction nds arbitrary: m) (simp_all add: normalised_step_distinct)

text \<open>
  Claim C6, as amended. \<^verbatim>\<open>normalised\<close> keeps the name and every entry of the
  table where it stands, and appends, for every node of the registry with another name
  than the node's own that is no destination yet, the entry with that node as next hop
  and infinite cost. Afterwards every other node of the registry is a destination; every
  node of the registry is one when the node's own name was a destination before; and the
  keys stay distinct.
\<close>

theorem normalised_fills_neighbours:
  "name (normalised self net) = name self \<and>
   (\<exists>ext. map_hops (normalised self net) = map_hops self @ ext) \<and>
   (\<forall>k h. map_of (map_hops self) k = Some h \<longrightarrow> map_of (map_hops (normalised self net)) k = Some h) \<and>
   (\<forall>nd \<in> set (neighbours self net). \<not> contains (map_hops self) (name nd) \<longrightarrow>
      getitem (map_hops (normalised self net)) (name nd) = Inr (HopInfo (name nd) PInf)) \<and>
   (\<forall>nd \<in> set (neighbours self net). contains (map_hops (normalised self net)) (name nd)) \<and>
   (contains (map_hops self) (name self) \<longrightarrow>
      (\<forall>nd \<in> set (map snd net). contains (map_hops (normalised self net)) (name nd))) \<and>
   (distinct (keys (map_hops self)) \<longrightarrow> distinct (keys (map_hops (normalised self net))))"
proof (intro conjI)
  show "name (normalised self net) = name self" by (simp add: normalised_def)
  show ext: "\<exists>ext. map_hops (normalised self net) = map_hops self @ ext"
    by (simp add: normalised_def normalised_fold_extends)
  then show "\<forall>k h. map_of (map_hops self) k = Some h \<longrightarrow> map_of (map_hops (normalised self net)) k = Some h"
    by (auto simp: map_add_Some_iff)
  show "\<forall>nd \<in> set (neighbours self net). \<not> contains (map_hops self) (name nd) \<longrightarrow>
      getitem (map_hops (normalised self net)) (name nd) = Inr (HopInfo (name nd) PInf)"
    by (simp add: normalised_def normalised_fold_adds)
  show nb: "\<forall>nd \<in> set (neighbours self net). contains (map_hops (normalised self net)) (name nd)"
    by (simp add: normalised_def normalised_fold_covers)
  show "contains (map_hops self) (name self) \<longrightarrow>
      (\<forall>nd \<in> set (map snd net). contains (map_hops (normalised self net)) (name nd))"
  proof (intro impI ballI)
    fix nd
    assume own: "contains (map_hops self) (name self)" and nd: "nd \<in> set (map snd net)"
    show "contains (map_hops (normalised self net)) (name nd)"
    proof (cases "name self = name nd")
      case True
      with own show ?thesis by (simp add: normalised_def normalised_fold_keeps)
    next
      case False
      with nd have "nd \<in> set (neighbours self net)" by (simp add: neighbours_def)
      with nb show ?thesis by blast
    qed
  qed
  show "distinct (keys (map_hops self)) \<longrightarrow> distinct (keys (map_hops (normalised self net)))"
    by (simp add: normalised_def normalised_fold_distinct)
qed

theorem normalised_fills_neighbours_witness:
  "Node ''D'' [] \<in> set (neighbours quad_A quad_net) \<and> \<not> contains (map_hops quad_A) ''D'' \<and>
   contains (map_hops quad_A) (name quad_A) \<and> distinct (keys (map_hops quad_A)) \<and>
   map_of (map_hops quad_A) ''C'' = Some (HopInfo ''C'' (Fin 2.5)) \<and>
   normalised quad_A quad_net = Node ''A'' (map_hops quad_A @ [(''D'', HopInfo ''D'' PInf)]) \<and>
   getitem (map_hops (normalised quad_A quad_net)) ''D'' = Inr (HopInfo ''D'' PInf) \<and>
   map_of (map_hops (normalised quad_A quad_net)) ''C'' = Some (HopInfo ''C'' (Fin 2.5)) \<and>
   contains (map_hops (normalised quad_A quad_net)) ''A'' \<and>
   distinct (keys (map_hops (normalised quad_A quad_net)))"
proof -
  have a: "Node ''D'' [] \<in> set (neighbours quad_A quad_net)"
    by (simp add: neighbours_def quad_net_def quad_A_def)
  have b: "\<not> contains (map_hops quad_A) (name (Node ''D'' []))"
    by (simp add: contains_def keys_def quad_A_def)
  have c: "contains (map_hops quad_A) (name quad_A)"
    by (simp add: contains_def keys_def quad_A_def)
  have d: "distinct (keys (map_hops quad_A))"
    by (simp add: keys_def quad_A_def)
  have e: "map_of (map_hops quad_A) ''C'' = Some (HopInfo ''C'' (Fin 2.5))"
    by (simp add: quad_A_def)
  have f: "quad_A \<in> set (map snd quad_net)"
    by (simp add: quad_net_def)
  have g: "normalised quad_A quad_net = Node ''A'' (map_hops quad_A @ [(''D'', HopInfo ''D'' PInf)])"
    by (simp add: normalised_def neighbours_def quad_net_def quad_A_def normalised_step_def contains_def keys_def)
  note t = normalised_fills_neighbours[of quad_A quad_net]
  from t a b have 1: "getitem (map_hops (normalised quad_A quad_net)) ''D'' = Inr (HopInfo ''D'' PInf)"
    by fastforce
  from t e have 2: "map_of (map_hops (normalised quad_A quad_net)) ''C'' = Some (HopInfo ''C'' (Fin 2.5))"
    by blast
  from t c f have 3: "contains (map_hops (normalised quad_A quad_net)) ''A''"
    by (fastforce simp: quad_A_def)
  from t d have 4: "distinct (keys (map_hops (normalised quad_A quad_net)))"
    by blast
  from a b c d e g 1 2 3 4 show ?thesis by simp
qed

text \<open>
  The claim as written promises an entry for every node of the network. The node itself
  is no neighbour of itself: when its table has no entry for its own name, as for node A
  built from links whose hops do not include A, it has none afterwards either.
\<close>

theorem normalised_skips_own_entry_counterexample:
  "from_links [(''A'', [HopInfo ''B'' (Fin 1)]), (''B'', [HopInfo ''B'' (Fin 0), HopInfo ''A'' (Fin 1)])]
     = Inr (map snd lone_net) \<and>
   lone_A \<in> set (map snd lone_net) \<and>
   \<not> contains (map_hops lone_A) (name lone_A) \<and>
   normalised lone_A lone_net = lone_A \<and>
   \<not> contains (map_hops (normalised lone_A lone_net)) (name lone_A)"
  by (simp add: lone_A_def lone_net_def normalised_def neighbours_def normalised_step_def contains_def keys_def)

section \<open>Properties of the parsing\<close>

text \<open>
  Claim C9, as amended. \<^verbatim>\<open>HopInfo.parse_str\<close> fails exactly when the text between
  the first and the last character, stripped, does not split at commas into exactly two
  fields, or \<^verbatim>\<open>float\<close> rejects the second field. The exception is the built-in
  \<^verbatim>\<open>ValueError\<close> in both cases. A successful parse returns the first field as
  the name and the float of the second as the cost, whatever the float is: neither
  \<^verbatim>\<open>parse_str\<close> nor the constructor checks it.
\<close>

theorem parse_str_fails_iff:
  "((\<exists>e. parse_str source = Inl e) \<longleftrightarrow>
      (length (split (CHR '','') (strip (slice_1_m1 source))) \<noteq> 2 \<or>
       float_of_str (split (CHR '','') (strip (slice_1_m1 source)) ! 1) = None)) \<and>
   (\<forall>e. parse_str source = Inl e \<longrightarrow> e = ValueError) \<and>
   (\<forall>h. parse_str source = Inr h \<longrightarrow>
      next_hop h = split (CHR '','') (strip (slice_1_m1 source)) ! 0 \<and>
      float_of_str (split (CHR '','') (strip (slice_1_m1 source)) ! 1) = Some (best_distance h))"
proof -
  obtain fs where fs: "split (CHR '','') (strip (slice_1_m1 source)) = fs" by simp
  show ?thesis
    unfolding parse_str_def fs
    by (auto split: list.splits option.splits)
qed

theorem parse_str_fails_iff_witness:
  "length (split (CHR '','') (strip (slice_1_m1 ''(B)''))) \<noteq> 2 \<and>
   parse_str ''(B)'' = Inl ValueError \<and>
   float_of_str (split (CHR '','') (strip (slice_1_m1 ''(B,x)'')) ! 1) = None \<and>
   parse_str ''(B,x)'' = Inl ValueError \<and>
   parse_str ''(B,1.0)'' = Inr (HopInfo ''B'' (Fin 1)) \<and>
   float_of_str (split (CHR '','') (strip (slice_1_m1 ''(B,1.0)'')) ! 1) = Some (Fin 1)"
proof -
  have a: "length (split (CHR '','') (strip (slice_1_m1 ''(B)''))) \<noteq> 2"
    by code_simp
  have b: "float_of_str (split (CHR '','') (strip (slice_1_m1 ''(B,x)'')) ! 1) = None"
    by code_simp
  have c: "parse_str ''(B,1.0)'' = Inr (HopInfo ''B'' (Fin 1))"
    by code_simp
  from parse_str_fails_iff[of "''(B)''"] a have 1: "parse_str ''(B)'' = Inl ValueError" by blast
  from parse_str_fails_iff[of "''(B,x)''"] b have 2: "parse_str ''(B,x)'' = Inl ValueError" by blast
  from parse_str_fails_iff[of "''(B,1.0)''"] c
  have 3: "float_of_str (split (CHR '','') (strip (slice_1_m1 ''(B,1.0)'')) ! 1) = Some (Fin 1)"
    by simp
  from a b c 1 2 3 show ?thesis by blast
qed

text \<open>
  The claim as written has the constructor check that the cost is not negative, and
  names the exception \<^verbatim>\<open>MalformedHopError\<close>. A negative cost and not-a-number
  are accepted, and the class of the exception raised is \<^verbatim>\<open>ValueError\<close>.
\<close>

theorem parse_str_no_validation_counterexample:
  "parse_str ''(B,-1)'' = Inr (HopInfo ''B'' (Fin (- 1))) \<and> float_lt (Fin (- 1)) (Fin 0) \<and>
   parse_str ''(B,nan)'' = Inr (HopInfo ''B'' NaN) \<and>
   parse_str ''(B)'' = Inl ValueError \<and> exception_class ValueError \<noteq> ''MalformedHopError''"
  by code_simp

lemma hop_from_distinct:
  "distinct (map next_hop hops) \<Longrightarrow> h \<in> set hops \<Longrightarrow> hop_from (next_hop h) hops = Inr h"
  by (induction hops) auto

lemma hops_dict_distinct:
  assumes "set todo \<subseteq> set hops" and "distinct (map next_hop hops)"
    and "distinct (map next_hop todo)" and "\<forall>h \<in> set todo. next_hop h \<notin> set (keys d)"
  shows "hops_dict hops todo d = Inr (d @ map (\<lambda>h. (next_hop h, h)) todo)"
  using assms
proof (induction todo arbitrary: d)
  case Nil
  then show ?case by simp
next
  case (Cons hop todo)
  from Cons.prems(1,2) have hf: "hop_from (next_hop hop) hops = Inr hop"
    by (simp add: hop_from_distinct)
  from Cons.prems(4) have si: "setitem d (next_hop hop) hop = d @ [(next_hop hop, hop)]"
    by (simp add: setitem_absent)
  have "\<forall>h \<in> set todo. next_hop h \<notin> set (keys (d @ [(next_hop hop, hop)]))"
  proof
    fix h
    assume h: "h \<in> set todo"
    from Cons.prems(3) have "next_hop hop \<notin> next_hop ` set todo" by simp
    with h have "next_hop h \<noteq> next_hop hop" by (metis imageI)
    moreover from Cons.prems(4) h have "next_hop h \<notin> set (keys d)" by simp
    ultimately show "next_hop h \<notin> set (keys (d @ [(next_hop hop, hop)]))"
      by (simp add: keys_def)
  qed
  with Cons.IH[of "d @ [(next_hop hop, hop)]"] Cons.prems(1,2,3)
  have "hops_dict hops todo (d @ [(next_hop hop, hop)])
          = Inr ((d @ [(next_hop hop, hop)]) @ map (\<lambda>h. (next_hop h, h)) todo)"
    by simp
  with hf si show ?case by simp
qed

lemma parse_strs_map: "parse_strs tokens = Inr hs \<Longrightarrow> map parse_str tokens = map Inr hs"
  by (induction tokens arbitrary: hs) (auto split: sum.splits)

text \<open>The table of a one-line file whose names are all different.\<close>

lemma single_line_table:
  "main_nodes [''A (B,1.0) (C,2.5)'']
     = Inr [Node ''A'' [(''A'', HopInfo ''A'' (Fin 0)), (''B'', HopInfo ''B'' (Fin 1)),
                         (''C'', HopInfo ''C'' (Fin 2.5))]] \<and>
   (split (CHR '' '') (strip line) = nm # tokens \<and> tokens \<noteq> [] \<and> parse_strs tokens = Inr hs \<and>
    distinct (nm # map next_hop hs) \<longrightarrow>
      map parse_str tokens = map Inr hs \<and>
      main_nodes [line] = Inr [Node nm ((nm, HopInfo nm (Fin 0)) # map (\<lambda>h. (next_hop h, h)) hs)])"
proof (intro conjI impI)
  show "main_nodes [''A (B,1.0) (C,2.5)'']
     = Inr [Node ''A'' [(''A'', HopInfo ''A'' (Fin 0)), (''B'', HopInfo ''B'' (Fin 1)),
                         (''C'', HopInfo ''C'' (Fin 2.5))]]"
    by code_simp
next
  assume a: "split (CHR '' '') (strip line) = nm # tokens \<and> tokens \<noteq> [] \<and> parse_strs tokens = Inr hs \<and>
    distinct (nm # map next_hop hs)"
  then show "map parse_str tokens = map Inr hs" by (simp add: parse_strs_map)
  from a have pl: "parse_links [line] = Inr [(nm, HopInfo nm (Fin 0) # hs)]"
    by (simp add: parse_links_def)
  from a have "distinct (map next_hop (HopInfo nm (Fin 0) # hs))" by simp
  from hops_dict_distinct[OF subset_refl this this, of "[]"]
  have "hops_dict (HopInfo nm (Fin 0) # hs) (HopInfo nm (Fin 0) # hs) []
          = Inr (map (\<lambda>h. (next_hop h, h)) (HopInfo nm (Fin 0) # hs))"
    by (simp add: keys_def)
  with pl show "main_nodes [line] = Inr [Node nm ((nm, HopInfo nm (Fin 0)) # map (\<lambda>h. (next_hop h, h)) hs)]"
    by (simp add: main_nodes_def)
qed

text \<open>
  What \<^verbatim>\<open>parse_links\<close> and \<^verbatim>\<open>from_links\<close> build from any file: assigning
  to a dictionary key by key keeps the keys in the order of their first occurrence and,
  for each key, the value assigned last.
\<close>

lemma set_first_occurrences: "set (first_occurrences xs) = set xs"
  by (induction xs) auto

lemma distinct_first_occurrences: "distinct (first_occurrences xs)"
  by (induction xs) (auto simp: distinct_removeAll)

lemma first_occurrences_snoc:
  "first_occurrences (xs @ [x]) = (if x \<in> set xs then first_occurrences xs else first_occurrences xs @ [x])"
  by (induction xs) (auto simp: set_first_occurrences)

lemma first_occurrences_distinct: "distinct xs \<Longrightarrow> first_occurrences xs = xs"
  by (induction xs) (auto simp: set_first_occurrences)

lemma keys_foldl_setitem:
  "keys (foldl (\<lambda>d (k, v). setitem d k v) [] kvs) = first_occurrences (map fst kvs)"
proof (induction kvs rule: rev_induct)
  case Nil
  then show ?case by (simp add: keys_def)
next
  case (snoc kv kvs)
  obtain k v where kv: "kv = (k, v)" by (cases kv)
  show ?case
    using snoc.IH
    by (simp add: kv keys_setitem first_occurrences_snoc set_first_occurrences)
qed

lemma map_of_foldl_setitem:
  "map_of (foldl (\<lambda>d (k, v). setitem d k v) [] kvs) k' = map_of (rev kvs) k'"
proof (induction kvs rule: rev_induct)
  case Nil
  then show ?case by simp
next
  case (snoc kv kvs)
  obtain k v where kv: "kv = (k, v)" by (cases kv)
  show ?case
    using snoc.IH by (simp add: kv map_of_setitem)
qed

lemma parse_str_error: "parse_str s = Inl e \<Longrightarrow> e = ValueError"
  by (auto simp: parse_str_def split: list.splits option.splits)

lemma parse_strs_error: "parse_strs ts = Inl e \<Longrightarrow> e = ValueError"
  by (induction ts arbitrary: e) (auto split: sum.splits dest: parse_str_error)

lemma parse_lines_step:
  "parse_lines (line # rest) m =
     (case link_line line of
        None \<Rightarrow> parse_lines rest m
      | Some (nm, lks) \<Rightarrow>
          (case parse_strs lks of
             Inl e \<Rightarrow> Inl e
           | Inr hs \<Rightarrow> parse_lines rest (setitem m nm (HopInfo nm (Fin 0) # hs))))"
  by (simp add: link_line_def split: list.splits)

lemma parse_lines_entries:
  "parse_lines lines m =
     (case file_entries lines of
        None \<Rightarrow> Inl ValueError
      | Some ents \<Rightarrow> Inr (foldl (\<lambda>d (k, v). setitem d k v) m ents))"
proof (induction lines arbitrary: m)
  case Nil
  then show ?case by (simp add: file_entries_def List.map_filter_simps)
next
  case (Cons line rest)
  show ?case
  proof (cases "link_line line")
    case None
    then show ?thesis
      using Cons.IH[of m]
      by (simp add: parse_lines_step file_entries_def List.map_filter_simps del: parse_lines.simps)
  next
    case (Some entry)
    obtain nm lks where entry: "entry = (nm, lks)" by (cases entry)
    show ?thesis
    proof (cases "parse_strs lks")
      case (Inl e)
      then have "e = ValueError" by (rule parse_strs_error)
      with Inl Some entry show ?thesis
        by (simp add: parse_lines_step file_entries_def List.map_filter_simps parsed_line_def
            del: parse_lines.simps)
    next
      case (Inr hs)
      with Some entry show ?thesis
        using Cons.IH[of "setitem m nm (HopInfo nm (Fin 0) # hs)"]
        by (simp add: parse_lines_step file_entries_def List.map_filter_simps parsed_line_def
            del: parse_lines.simps split: option.splits)
    qed
  qed
qed

lemma hop_from_first_hop:
  "hop_from k hops = (case first_hop hops k of None \<Rightarrow> Inl ValueError | Some h \<Rightarrow> Inr h)"
  by (induction hops) (auto simp: first_hop_def)

lemma first_hop_present: "h \<in> set hops \<Longrightarrow> \<exists>h'. first_hop hops (next_hop h) = Some h'"
  by (cases "first_hop hops (next_hop h)") (auto simp: first_hop_def find_None_iff)

lemma first_hop_absent: "k \<notin> next_hop ` set hops \<Longrightarrow> first_hop hops k = None"
  by (auto simp: first_hop_def find_None_iff)

lemma hops_dict_foldl:
  assumes "set todo \<subseteq> set hops"
  shows "hops_dict hops todo d
           = Inr (foldl (\<lambda>d (k, v). setitem d k v) d
                    (map (\<lambda>h. (next_hop h, the (first_hop hops (next_hop h)))) todo))"
  using assms
proof (induction todo arbitrary: d)
  case Nil
  then show ?case by simp
next
  case (Cons hop todo)
  from Cons.prems obtain h' where h': "first_hop hops (next_hop hop) = Some h'"
    using first_hop_present[of hop hops] by auto
  with Cons show ?case by (simp add: hop_from_first_hop)
qed

lemma map_of_pairs:
  "map_of (map (\<lambda>x. (f x, g (f x))) xs) k = (if k \<in> f ` set xs then Some (g k) else None)"
  by (induction xs) auto

lemma hops_dict_table:
  "\<exists>m. hops_dict hops hops [] = Inr m \<and>
        keys m = first_occurrences (map next_hop hops) \<and>
        (\<forall>k. map_of m k = first_hop hops k)"
proof -
  let ?kvs = "map (\<lambda>h. (next_hop h, the (first_hop hops (next_hop h)))) hops"
  let ?m = "foldl (\<lambda>d (k, v). setitem d k v) [] ?kvs"
  have 1: "hops_dict hops hops [] = Inr ?m" by (simp add: hops_dict_foldl)
  have 2: "keys ?m = first_occurrences (map next_hop hops)"
    by (simp add: keys_foldl_setitem comp_def)
  have 3: "map_of ?m k = first_hop hops k" for k
  proof -
    have "map_of ?m k = map_of (map (\<lambda>h. (next_hop h, the (first_hop hops (next_hop h)))) (rev hops)) k"
      by (simp add: map_of_foldl_setitem rev_map)
    also have "\<dots> = (if k \<in> next_hop ` set hops then Some (the (first_hop hops k)) else None)"
      using map_of_pairs[of next_hop "\<lambda>k. the (first_hop hops k)" "rev hops" k] by simp
    also have "\<dots> = first_hop hops k"
    proof (cases "k \<in> next_hop ` set hops")
      case True
      then obtain h where "h \<in> set hops" "k = next_hop h" by auto
      with first_hop_present[of h hops] True show ?thesis by auto
    next
      case False
      then show ?thesis by (simp add: first_hop_absent)
    qed
    finally show ?thesis .
  qed
  from 1 2 3 show ?thesis by blast
qed


lemma from_links_tables:
  "\<exists>nodes. from_links links = Inr nodes \<and> map name nodes = map fst links \<and>
     (\<forall>nd \<in> set nodes. \<exists>hops. (name nd, hops) \<in> set links \<and>
        keys (map_hops nd) = first_occurrences (map next_hop hops) \<and>
        (\<forall>k. map_of (map_hops nd) k = first_hop hops k) \<and>
        (distinct (map next_hop hops) \<longrightarrow> map_hops nd = map (\<lambda>h. (next_hop h, h)) hops))"
proof (induction links)
  case Nil
  then show ?case by simp
next
  case (Cons entry links)
  obtain nm hops where entry: "entry = (nm, hops)" by (cases entry)
  obtain m where m: "hops_dict hops hops [] = Inr m"
    "keys m = first_occurrences (map next_hop hops)" "\<forall>k. map_of m k = first_hop hops k"
    using hops_dict_table by blast
  have d: "distinct (map next_hop hops) \<longrightarrow> m = map (\<lambda>h. (next_hop h, h)) hops"
  proof
    assume "distinct (map next_hop hops)"
    from hops_dict_distinct[OF subset_refl this this, of "[]"] m(1)
    show "m = map (\<lambda>h. (next_hop h, h)) hops" by (simp add: keys_def)
  qed
  from Cons.IH obtain nodes where nodes: "from_links links = Inr nodes" "map name nodes = map fst links"
    "\<forall>nd \<in> set nodes. \<exists>hops. (name nd, hops) \<in> set links \<and>
        keys (map_hops nd) = first_occurrences (map next_hop hops) \<and>
        (\<forall>k. map_of (map_hops nd) k = first_hop hops k) \<and>
        (distinct (map next_hop hops) \<longrightarrow> map_hops nd = map (\<lambda>h. (next_hop h, h)) hops)"
    by blast
  have "from_links (entry # links) = Inr (Node nm m # nodes)"
    using m(1) nodes(1) by (simp add: entry)
  moreover have "map name (Node nm m # nodes) = map fst (entry # links)"
    using nodes(2) by (simp add: entry)
  moreover have "\<forall>nd \<in> set (Node nm m # nodes). \<exists>hops. (name nd, hops) \<in> set (entry # links) \<and>
        keys (map_hops nd) = first_occurrences (map next_hop hops) \<and>
        (\<forall>k. map_of (map_hops nd) k = first_hop hops k) \<and>
        (distinct (map next_hop hops) \<longrightarrow> map_hops nd = map (\<lambda>h. (next_hop h, h)) hops)"
  proof
    fix nd
    assume "nd \<in> set (Node nm m # nodes)"
    then consider "nd = Node nm m" | "nd \<in> set nodes" by auto
    then show "\<exists>hops. (name nd, hops) \<in> set (entry # links) \<and>
        keys (map_hops nd) = first_occurrences (map next_hop hops) \<and>
        (\<forall>k. map_of (map_hops nd) k = first_hop hops k) \<and>
        (distinct (map next_hop hops) \<longrightarrow> map_hops nd = map (\<lambda>h. (next_hop h, h)) hops)"
    proof cases
      case 1
      with m(2,3) d entry show ?thesis by auto
    next
      case 2
      with nodes(3) show ?thesis by fastforce
    qed
  qed
  ultimately show ?case by blast
qed

lemma links_of_entries:
  assumes "links = foldl (\<lambda>d (k, v). setitem d k v) [] ents"
  shows "map fst links = first_occurrences (map fst ents)"
    and "(nm, hops) \<in> set links \<Longrightarrow> map_of (rev ents) nm = Some hops"
proof -
  from assms show k: "map fst links = first_occurrences (map fst ents)"
    using keys_foldl_setitem[of ents] by (simp add: keys_def)
  assume "(nm, hops) \<in> set links"
  moreover from k have "distinct (map fst links)" by (simp add: distinct_first_occurrences)
  ultimately have "map_of links nm = Some hops" by simp
  with assms show "map_of (rev ents) nm = Some hops" by (simp add: map_of_foldl_setitem)
qed

lemma main_nodes_general:
  "(file_entries lines = None \<longrightarrow> main_nodes lines = Inl ValueError) \<and>
   (\<forall>ents. file_entries lines = Some ents \<longrightarrow>
      (\<exists>nodes. main_nodes lines = Inr nodes \<and>
         map name nodes = first_occurrences (map fst ents) \<and>
         (\<forall>nd \<in> set nodes. \<exists>hops. map_of (rev ents) (name nd) = Some hops \<and>
            keys (map_hops nd) = first_occurrences (map next_hop hops) \<and>
            (\<forall>k. map_of (map_hops nd) k = first_hop hops k) \<and>
            (distinct (map next_hop hops) \<longrightarrow> map_hops nd = map (\<lambda>h. (next_hop h, h)) hops))))"
proof (intro conjI allI impI)
  assume "file_entries lines = None"
  then show "main_nodes lines = Inl ValueError"
    by (simp add: main_nodes_def parse_links_def parse_lines_entries)
next
  fix ents
  assume e: "file_entries lines = Some ents"
  define links where "links = foldl (\<lambda>d (k, v). setitem d k v) [] ents"
  from e have pl: "parse_links lines = Inr links"
    by (simp add: parse_links_def parse_lines_entries links_def)
  obtain nodes where nodes: "from_links links = Inr nodes" "map name nodes = map fst links"
    "\<forall>nd \<in> set nodes. \<exists>hops. (name nd, hops) \<in> set links \<and>
        keys (map_hops nd) = first_occurrences (map next_hop hops) \<and>
        (\<forall>k. map_of (map_hops nd) k = first_hop hops k) \<and>
        (distinct (map next_hop hops) \<longrightarrow> map_hops nd = map (\<lambda>h. (next_hop h, h)) hops)"
    using from_links_tables by blast
  have 1: "main_nodes lines = Inr nodes" using pl nodes(1) by (simp add: main_nodes_def)
  have 2: "map name nodes = first_occurrences (map fst ents)"
    using nodes(2) links_of_entries(1)[OF links_def] by simp
  have 3: "\<forall>nd \<in> set nodes. \<exists>hops. map_of (rev ents) (name nd) = Some hops \<and>
            keys (map_hops nd) = first_occurrences (map next_hop hops) \<and>
            (\<forall>k. map_of (map_hops nd) k = first_hop hops k) \<and>
            (distinct (map next_hop hops) \<longrightarrow> map_hops nd = map (\<lambda>h. (next_hop h, h)) hops)"
  proof
    fix nd
    assume "nd \<in> set nodes"
    with nodes(3) obtain hops where h: "(name nd, hops) \<in> set links"
        "keys (map_hops nd) = first_occurrences (map next_hop hops)"
        "\<forall>k. map_of (map_hops nd) k = first_hop hops k"
        "distinct (map next_hop hops) \<longrightarrow> map_hops nd = map (\<lambda>h. (next_hop h, h)) hops"
      by blast
    from links_of_entries(2)[OF links_def h(1)] h(2,3,4)
    show "\<exists>hops. map_of (rev ents) (name nd) = Some hops \<and>
            keys (map_hops nd) = first_occurrences (map next_hop hops) \<and>
            (\<forall>k. map_of (map_hops nd) k = first_hop hops k) \<and>
            (distinct (map next_hop hops) \<longrightarrow> map_hops nd = map (\<lambda>h. (next_hop h, h)) hops)"
      by blast
  qed
  from 1 2 3 show "\<exists>nodes. main_nodes lines = Inr nodes \<and>
         map name nodes = first_occurrences (map fst ents) \<and>
         (\<forall>nd \<in> set nodes. \<exists>hops. map_of (rev ents) (name nd) = Some hops \<and>
            keys (map_hops nd) = first_occurrences (map next_hop hops) \<and>
            (\<forall>k. map_of (map_hops nd) k = first_hop hops k) \<and>
            (distinct (map next_hop hops) \<longrightarrow> map_hops nd = map (\<lambda>h. (next_hop h, h)) hops))"
    by blast
qed

lemma those_map_Some:
  "those (map f xs) = Some ys \<Longrightarrow> list_all2 (\<lambda>x y. f x = Some y) xs ys"
  by (induction xs arbitrary: ys) (auto split: option.splits)

lemma those_map_None:
  "(those (map f xs) = None) = (\<exists>x \<in> set xs. f x = None)"
  by (induction xs) (auto split: option.splits)

lemma parse_strs_fails: "(\<exists>e. parse_strs ts = Inl e) = (\<exists>t \<in> set ts. \<exists>e. parse_str t = Inl e)"
  by (induction ts) (auto split: sum.splits)

lemma file_entries_fails:
  "(file_entries lines = None) =
     (\<exists>entry \<in> set (List.map_filter link_line lines). \<exists>t \<in> set (snd entry). parse_str t = Inl ValueError)"
  and file_entries_list: "file_entries lines = Some ents \<Longrightarrow>
     list_all2 (\<lambda>entry ent. fst ent = fst entry \<and>
                  (\<exists>hs. map parse_str (snd entry) = map Inr hs \<and>
                        snd ent = HopInfo (fst entry) (Fin 0) # hs))
       (List.map_filter link_line lines) ents"
proof -
  have pn: "(parsed_line entry = None) = (\<exists>t \<in> set (snd entry). parse_str t = Inl ValueError)" for entry
  proof -
    have "(parsed_line entry = None) = (\<exists>e. parse_strs (snd entry) = Inl e)"
      by (auto simp: parsed_line_def split: sum.splits)
    also have "\<dots> = (\<exists>t \<in> set (snd entry). \<exists>e. parse_str t = Inl e)" by (rule parse_strs_fails)
    also have "\<dots> = (\<exists>t \<in> set (snd entry). parse_str t = Inl ValueError)"
      by (auto dest: parse_str_error)
    finally show ?thesis .
  qed
  show "(file_entries lines = None) =
     (\<exists>entry \<in> set (List.map_filter link_line lines). \<exists>t \<in> set (snd entry). parse_str t = Inl ValueError)"
    by (simp add: file_entries_def those_map_None pn)
  assume "file_entries lines = Some ents"
  then have L: "list_all2 (\<lambda>entry ent. parsed_line entry = Some ent) (List.map_filter link_line lines) ents"
    by (simp add: file_entries_def those_map_Some)
  have M: "parsed_line entry = Some ent \<Longrightarrow>
      fst ent = fst entry \<and> (\<exists>hs. map parse_str (snd entry) = map Inr hs \<and>
                        snd ent = HopInfo (fst entry) (Fin 0) # hs)" for entry ent
    by (auto simp: parsed_line_def split: sum.splits dest: parse_strs_map)
  show "list_all2 (\<lambda>entry ent. fst ent = fst entry \<and>
                  (\<exists>hs. map parse_str (snd entry) = map Inr hs \<and>
                        snd ent = HopInfo (fst entry) (Fin 0) # hs))
       (List.map_filter link_line lines) ents"
    by (rule list_all2_mono[OF L]) (erule M)
qed

text \<open>
  Claim C7, as amended. The line \<^verbatim>\<open>A (B,1.0) (C,2.5)\<close> gives node A the table
  A:(A,0.0), B:(B,1.0), C:(C,2.5). For any file: building the nodes fails, with
  \<^verbatim>\<open>ValueError\<close>, exactly when a token of a matching line does not parse.
  Otherwise every matching line stands for its name, the hop to the name itself at cost
  0 and one hop per token, in the order of the line; there is one node per name, in the
  order in which the names first head a matching line; the table of a node comes from
  the last matching line of its name, has the names of that line's hops as keys, in the
  order of their first occurrence, and holds for each key the first hop of that name.
  When the names of the hops differ from each other (so also from the node's name),
  this is the hop to the node itself followed by one hop per token, in the order of the
  line.
\<close>

theorem table_seeded_from_line:
  "main_nodes [''A (B,1.0) (C,2.5)'']
     = Inr [Node ''A'' [(''A'', HopInfo ''A'' (Fin 0)), (''B'', HopInfo ''B'' (Fin 1)),
                         (''C'', HopInfo ''C'' (Fin 2.5))]] \<and>
   (split (CHR '' '') (strip line) = nm # tokens \<and> tokens \<noteq> [] \<and> parse_strs tokens = Inr hs \<and>
    distinct (nm # map next_hop hs) \<longrightarrow>
      map parse_str tokens = map Inr hs \<and>
      main_nodes [line] = Inr [Node nm ((nm, HopInfo nm (Fin 0)) # map (\<lambda>h. (next_hop h, h)) hs)]) \<and>
   ((file_entries lines = None) =
      (\<exists>entry \<in> set (List.map_filter link_line lines). \<exists>t \<in> set (snd entry). parse_str t = Inl ValueError)) \<and>
   (file_entries lines = None \<longrightarrow> main_nodes lines = Inl ValueError) \<and>
   (\<forall>ents. file_entries lines = Some ents \<longrightarrow>
      list_all2 (\<lambda>entry ent. fst ent = fst entry \<and>
                   (\<exists>hs. map parse_str (snd entry) = map Inr hs \<and>
                         snd ent = HopInfo (fst entry) (Fin 0) # hs))
        (List.map_filter link_line lines) ents \<and>
      (\<exists>nodes. main_nodes lines = Inr nodes \<and>
         map name nodes = first_occurrences (map fst ents) \<and>
         (\<forall>nd \<in> set nodes. \<exists>hops. map_of (rev ents) (name nd) = Some hops \<and>
            keys (map_hops nd) = first_occurrences (map next_hop hops) \<and>
            (\<forall>k. map_of (map_hops nd) k = first_hop hops k) \<and>
            (distinct (map next_hop hops) \<longrightarrow> map_hops nd = map (\<lambda>h. (next_hop h, h)) hops))))"
proof (intro conjI)
  note s = single_line_table[of line nm tokens hs]
  from s show "main_nodes [''A (B,1.0) (C,2.5)'']
     = Inr [Node ''A'' [(''A'', HopInfo ''A'' (Fin 0)), (''B'', HopInfo ''B'' (Fin 1)),
                         (''C'', HopInfo ''C'' (Fin 2.5))]]"
    by (rule conjunct1)
  from s show "split (CHR '' '') (strip line) = nm # tokens \<and> tokens \<noteq> [] \<and> parse_strs tokens = Inr hs \<and>
    distinct (nm # map next_hop hs) \<longrightarrow>
      map parse_str tokens = map Inr hs \<and>
      main_nodes [line] = Inr [Node nm ((nm, HopInfo nm (Fin 0)) # map (\<lambda>h. (next_hop h, h)) hs)]"
    by (rule conjunct2)
  show "(file_entries lines = None) =
      (\<exists>entry \<in> set (List.map_filter link_line lines). \<exists>t \<in> set (snd entry). parse_str t = Inl ValueError)"
    by (rule file_entries_fails)
  show "file_entries lines = None \<longrightarrow> main_nodes lines = Inl ValueError"
    using main_nodes_general[of lines] by (rule conjunct1)
  show "\<forall>ents. file_entries lines = Some ents \<longrightarrow>
      list_all2 (\<lambda>entry ent. fst ent = fst entry \<and>
                   (\<exists>hs. map parse_str (snd entry) = map Inr hs \<and>
                         snd ent = HopInfo (fst entry) (Fin 0) # hs))
        (List.map_filter link_line lines) ents \<and>
      (\<exists>nodes. main_nodes lines = Inr nodes \<and>
         map name nodes = first_occurrences (map fst ents) \<and>
         (\<forall>nd \<in> set nodes. \<exists>hops. map_of (rev ents) (name nd) = Some hops \<and>
            keys (map_hops nd) = first_occurrences (map next_hop hops) \<and>
            (\<forall>k. map_of (map_hops nd) k = first_hop hops k) \<and>
            (distinct (map next_hop hops) \<longrightarrow> map_hops nd = map (\<lambda>h. (next_hop h, h)) hops)))"
  proof (intro allI impI conjI)
    fix ents
    assume e: "file_entries lines = Some ents"
    then show "list_all2 (\<lambda>entry ent. fst ent = fst entry \<and>
                   (\<exists>hs. map parse_str (snd entry) = map Inr hs \<and>
                         snd ent = HopInfo (fst entry) (Fin 0) # hs))
        (List.map_filter link_line lines) ents"
      by (rule file_entries_list)
    from e main_nodes_general[of lines, THEN conjunct2]
    show "\<exists>nodes. main_nodes lines = Inr nodes \<and>
         map name nodes = first_occurrences (map fst ents) \<and>
         (\<forall>nd \<in> set nodes. \<exists>hops. map_of (rev ents) (name nd) = Some hops \<and>
            keys (map_hops nd) = first_occurrences (map next_hop hops) \<and>
            (\<forall>k. map_of (map_hops nd) k = first_hop hops k) \<and>
            (distinct (map next_hop hops) \<longrightarrow> map_hops nd = map (\<lambda>h. (next_hop h, h)) hops))"
      by blast
  qed
qed

theorem table_seeded_from_line_witness:
  "split (CHR '' '') (strip ''B (A,1.0) (C,1)'') = [''B'', ''(A,1.0)'', ''(C,1)''] \<and>
   parse_strs [''(A,1.0)'', ''(C,1)''] = Inr [HopInfo ''A'' (Fin 1), HopInfo ''C'' (Fin 1)] \<and>
   distinct (''B'' # map next_hop [HopInfo ''A'' (Fin 1), HopInfo ''C'' (Fin 1)]) \<and>
   main_nodes [''B (A,1.0) (C,1)'']
     = Inr [Node ''B'' [(''B'', HopInfo ''B'' (Fin 0)), (''A'', HopInfo ''A'' (Fin 1)), (''C'', HopInfo ''C'' (Fin 1))]] \<and>
   file_entries [''A (B,x)''] = None \<and> main_nodes [''A (B,x)''] = Inl ValueError \<and>
   file_entries two_A_lines = Some two_A_entries \<and>
   main_nodes two_A_lines
     = Inr [Node ''A'' [(''A'', HopInfo ''A'' (Fin 0)), (''C'', HopInfo ''C'' (Fin 3))],
            Node ''B'' [(''B'', HopInfo ''B'' (Fin 0)), (''A'', HopInfo ''A'' (Fin 1))]] \<and>
   first_occurrences (map fst two_A_entries) = [''A'', ''B''] \<and>
   map_of (rev two_A_entries) ''A'' = Some [HopInfo ''A'' (Fin 0), HopInfo ''C'' (Fin 3), HopInfo ''C'' (Fin 4)] \<and>
   first_occurrences (map next_hop [HopInfo ''A'' (Fin 0), HopInfo ''C'' (Fin 3), HopInfo ''C'' (Fin 4)]) = [''A'', ''C''] \<and>
   first_hop [HopInfo ''A'' (Fin 0), HopInfo ''C'' (Fin 3), HopInfo ''C'' (Fin 4)] ''C'' = Some (HopInfo ''C'' (Fin 3)) \<and>
   (\<exists>nodes. main_nodes two_A_lines = Inr nodes \<and> map name nodes = [''A'', ''B''] \<and>
      (\<exists>nd hops. nd \<in> set nodes \<and> name nd = ''A'' \<and> map_of (rev two_A_entries) ''A'' = Some hops \<and>
         keys (map_hops nd) = first_occurrences (map next_hop hops) \<and>
         map_of (map_hops nd) ''C'' = first_hop hops ''C''))"
proof -
  have a: "split (CHR '' '') (strip ''B (A,1.0) (C,1)'') = ''B'' # [''(A,1.0)'', ''(C,1)'']"
    by code_simp
  have b: "parse_strs [''(A,1.0)'', ''(C,1)''] = Inr [HopInfo ''A'' (Fin 1), HopInfo ''C'' (Fin 1)]"
    by code_simp
  have c: "distinct (''B'' # map next_hop [HopInfo ''A'' (Fin 1), HopInfo ''C'' (Fin 1)])"
    by simp
  have d: "[''(A,1.0)'', ''(C,1)''] \<noteq> []" by simp
  note t = table_seeded_from_line[of "''B (A,1.0) (C,1)''" "''B''" "[''(A,1.0)'', ''(C,1)'']"
      "[HopInfo ''A'' (Fin 1), HopInfo ''C'' (Fin 1)]" two_A_lines]
  from t[THEN conjunct2, THEN conjunct1] a b c d
  have "main_nodes [''B (A,1.0) (C,1)'']
     = Inr [Node ''B'' ((''B'', HopInfo ''B'' (Fin 0)) # map (\<lambda>h. (next_hop h, h)) [HopInfo ''A'' (Fin 1), HopInfo ''C'' (Fin 1)])]"
    by blast
  then have 1: "main_nodes [''B (A,1.0) (C,1)'']
     = Inr [Node ''B'' [(''B'', HopInfo ''B'' (Fin 0)), (''A'', HopInfo ''A'' (Fin 1)), (''C'', HopInfo ''C'' (Fin 1))]]"
    by simp
  have n: "file_entries [''A (B,x)''] = None" by code_simp
  note u = table_seeded_from_line[of "[]" "[]" "[]" "[]" "[''A (B,x)'']"]
  from u[THEN conjunct2, THEN conjunct2, THEN conjunct2, THEN conjunct1] n
  have 2: "main_nodes [''A (B,x)''] = Inl ValueError" by blast
  have e: "file_entries two_A_lines = Some two_A_entries" by code_simp
  have m: "main_nodes two_A_lines
     = Inr [Node ''A'' [(''A'', HopInfo ''A'' (Fin 0)), (''C'', HopInfo ''C'' (Fin 3))],
            Node ''B'' [(''B'', HopInfo ''B'' (Fin 0)), (''A'', HopInfo ''A'' (Fin 1))]]"
    by code_simp
  have f: "first_occurrences (map fst two_A_entries) = [''A'', ''B'']"
    by (simp add: two_A_entries_def)
  have g: "map_of (rev two_A_entries) ''A'' = Some [HopInfo ''A'' (Fin 0), HopInfo ''C'' (Fin 3), HopInfo ''C'' (Fin 4)]"
    by (simp add: two_A_entries_def)
  have h: "first_occurrences (map next_hop [HopInfo ''A'' (Fin 0), HopInfo ''C'' (Fin 3), HopInfo ''C'' (Fin 4)]) = [''A'', ''C'']"
    by simp
  have i: "first_hop [HopInfo ''A'' (Fin 0), HopInfo ''C'' (Fin 3), HopInfo ''C'' (Fin 4)] ''C'' = Some (HopInfo ''C'' (Fin 3))"
    by (simp add: first_hop_def)
  from t[THEN conjunct2, THEN conjunct2, THEN conjunct2, THEN conjunct2] e
  obtain nodes where nodes: "main_nodes two_A_lines = Inr nodes"
      "map name nodes = first_occurrences (map fst two_A_entries)"
      "\<forall>nd \<in> set nodes. \<exists>hops. map_of (rev two_A_entries) (name nd) = Some hops \<and>
            keys (map_hops nd) = first_occurrences (map next_hop hops) \<and>
            (\<forall>k. map_of (map_hops nd) k = first_hop hops k) \<and>
            (distinct (map next_hop hops) \<longrightarrow> map_hops nd = map (\<lambda>h. (next_hop h, h)) hops)"
    by blast
  from nodes(1) m have ns: "nodes = [Node ''A'' [(''A'', HopInfo ''A'' (Fin 0)), (''C'', HopInfo ''C'' (Fin 3))],
            Node ''B'' [(''B'', HopInfo ''B'' (Fin 0)), (''A'', HopInfo ''A'' (Fin 1))]]"
    by simp
  then have inA: "Node ''A'' [(''A'', HopInfo ''A'' (Fin 0)), (''C'', HopInfo ''C'' (Fin 3))] \<in> set nodes"
    by simp
  with nodes(3) obtain hops where hops: "map_of (rev two_A_entries) ''A'' = Some hops"
      "keys [(''A'', HopInfo ''A'' (Fin 0)), (''C'', HopInfo ''C'' (Fin 3))] = first_occurrences (map next_hop hops)"
      "\<forall>k. map_of [(''A'', HopInfo ''A'' (Fin 0)), (''C'', HopInfo ''C'' (Fin 3))] k = first_hop hops k"
    by fastforce
  have 3: "\<exists>nodes. main_nodes two_A_lines = Inr nodes \<and> map name nodes = [''A'', ''B''] \<and>
      (\<exists>nd hops. nd \<in> set nodes \<and> name nd = ''A'' \<and> map_of (rev two_A_entries) ''A'' = Some hops \<and>
         keys (map_hops nd) = first_occurrences (map next_hop hops) \<and>
         map_of (map_hops nd) ''C'' = first_hop hops ''C'')"
    using nodes(1,2) f inA hops(1,2) hops(3)[rule_format, of "''C''"]
    by (intro exI[of _ nodes] conjI exI[of _ "Node ''A'' [(''A'', HopInfo ''A'' (Fin 0)), (''C'', HopInfo ''C'' (Fin 3))]"] exI[of _ hops]) simp_all
  from a b c 1 n 2 e m f g h i 3 show ?thesis by simp
qed

text \<open>
  The claim as written has one hop record per neighbour token. Tokens that repeat a name
  share one key of the dictionary, and \<^verbatim>\<open>_hop_from\<close> takes the first hop of that
  name: two tokens for B give one entry, with the cost of the first.
\<close>

theorem repeated_neighbour_counterexample:
  "split (CHR '' '') (strip ''A (B,1.0) (B,2.0)'') = [''A'', ''(B,1.0)'', ''(B,2.0)''] \<and>
   main_nodes [''A (B,1.0) (B,2.0)'']
     = Inr [Node ''A'' [(''A'', HopInfo ''A'' (Fin 0)), (''B'', HopInfo ''B'' (Fin 1))]]"
  by code_simp

section \<open>Properties of sending\<close>

lemma sends_fold:
  "foldl (\<lambda>qs' neighbour. and_send kind st qs' neighbour p) qs nbs q
     = qs q @ replicate (length (filter (\<lambda>nb. queue_ref nb = q) nbs)) (put kind st p)"
proof (induction nbs arbitrary: qs)
  case Nil
  then show ?case by simp
next
  case (Cons nb nbs)
  have step: "and_send kind st qs nb p q = (if queue_ref nb = q then qs q @ [put kind st p] else qs q)"
    by (simp add: and_send_def)
  have "foldl (\<lambda>qs' neighbour. and_send kind st qs' neighbour p) qs (nb # nbs) q
          = and_send kind st qs nb p q
              @ replicate (length (filter (\<lambda>nb. queue_ref nb = q) nbs)) (put kind st p)"
    using Cons.IH[of "and_send kind st qs nb p"] by simp
  with step show ?case by simp
qed

text \<open>
  Claim C2, as amended. The packet built by \<^verbatim>\<open>dummy_packet\<close> refers to the table
  object of the sender: nothing is copied. \<^verbatim>\<open>send_packets\<close> puts that one packet
  once into the queue of each neighbour. With the manager queue of \<^verbatim>\<open>main\<close> the
  content a receiver reads is the sender's table as it was at the \<^verbatim>\<open>put\<close>,
  whatever the store becomes afterwards; with the declared \<^verbatim>\<open>queue.Queue\<close> it is
  the sender's table as it is when the receiver reads.
\<close>

theorem packet_holds_reference:
  "content_ref (dummy_packet self time_ns) = map_ref self \<and>
   send_packets_sends kind st qs self time_ns registry q
     = qs q @ replicate (length (filter (\<lambda>nb. queue_ref nb = q) (neighbour_objs self registry)))
                (put kind st (dummy_packet self time_ns)) \<and>
   received_content st' (put Managed st (dummy_packet self time_ns)) = st (map_ref self) \<and>
   received_content st' (put InProcess st (dummy_packet self time_ns)) = st' (map_ref self)"
  by (simp add: send_packets_sends_def sends_fold) (simp add: dummy_packet_def put_def)

text \<open>
  The claim as written holds for every packet sent. With an in-process queue, the packet
  A put into the queue of B shows the entry for D that A assigned after sending.
\<close>

theorem sent_packet_follows_table_counterexample:
  "send_packets_sends InProcess ex_store (\<lambda>q. []) obj_A 0 [obj_A, obj_B] 11
     = [Reference (dummy_packet obj_A 0)] \<and>
   received_content ex_store (Reference (dummy_packet obj_A 0)) = ex_A \<and>
   received_content (store_setitem ex_store (map_ref obj_A) ''D'' (HopInfo ''C'' (Fin 4)))
       (Reference (dummy_packet obj_A 0))
     = setitem ex_A ''D'' (HopInfo ''C'' (Fin 4)) \<and>
   setitem ex_A ''D'' (HopInfo ''C'' (Fin 4)) \<noteq> ex_A"
  by (simp add: send_packets_sends_def neighbour_objs_def and_send_def put_def obj_A_def obj_B_def
      ex_store_def dummy_packet_def store_setitem_def ex_A_def)

end
